theory Spec2Isabelle
  imports Main
begin

section \<open>JavaScript strings\<close>

text \<open>
  A JavaScript string is modelled as \<^typ>\<open>string\<close>, the list of the bytes of its
  UTF-8 form (what \<^verbatim>\<open>input.toString()\<close> and the \<^verbatim>\<open>TextDecoder\<close> decode from).  The
  non-ASCII literals of the source (its emoji) are written out as their bytes.
\<close>

definition newline :: char where
  "newline = CHR 0x0A"

text \<open>\<^verbatim>\<open>s.split('\n')\<close>: never empty, \<^verbatim>\<open>"".split('\n')\<close> is \<^verbatim>\<open>[""]\<close>.\<close>

fun split_nl :: "string \<Rightarrow> string list" where
  "split_nl [] = [[]]"
| "split_nl (c # cs) =
     (if c = newline then [] # split_nl cs
      else (case split_nl cs of
              [] \<Rightarrow> [[c]]
            | l # ls \<Rightarrow> (c # l) # ls))"

text \<open>
  The white space and line terminators of ECMAScript, which \<^verbatim>\<open>trim\<close> removes, by the
  length of their UTF-8 form: U+0009 to U+000D and U+0020; U+00A0; and U+1680,
  U+2000 to U+200A, U+2028, U+2029, U+202F, U+205F, U+3000 and U+FEFF.
\<close>

definition white1 :: "char \<Rightarrow> bool" where
  "white1 a \<longleftrightarrow> a \<in> {CHR 0x09, CHR 0x0A, CHR 0x0B, CHR 0x0C, CHR 0x0D, CHR 0x20}"

definition white2 :: "char \<Rightarrow> char \<Rightarrow> bool" where
  "white2 a b \<longleftrightarrow> a = CHR 0xC2 \<and> b = CHR 0xA0"

definition white3 :: "char \<Rightarrow> char \<Rightarrow> char \<Rightarrow> bool" where
  "white3 a b c \<longleftrightarrow>
     a = CHR 0xE1 \<and> b = CHR 0x9A \<and> c = CHR 0x80 \<or>
     a = CHR 0xE2 \<and> b = CHR 0x80 \<and>
       c \<in> {CHR 0x80, CHR 0x81, CHR 0x82, CHR 0x83, CHR 0x84, CHR 0x85, CHR 0x86, CHR 0x87,
            CHR 0x88, CHR 0x89, CHR 0x8A, CHR 0xA8, CHR 0xA9, CHR 0xAF} \<or>
     a = CHR 0xE2 \<and> b = CHR 0x81 \<and> c = CHR 0x9F \<or>
     a = CHR 0xE3 \<and> b = CHR 0x80 \<and> c = CHR 0x80 \<or>
     a = CHR 0xEF \<and> b = CHR 0xBB \<and> c = CHR 0xBF"

text \<open>White space removed at the start of a string.\<close>

fun trimStart :: "string \<Rightarrow> string" where
  "trimStart (a # b # c # s) =
     (if white1 a then trimStart (b # c # s)
      else if white2 a b then trimStart (c # s)
      else if white3 a b c then trimStart s
      else a # b # c # s)"
| "trimStart [a, b] =
     (if white1 a then trimStart [b] else if white2 a b then [] else [a, b])"
| "trimStart [a] = (if white1 a then [] else [a])"
| "trimStart [] = []"

text \<open>
  White space removed at the end: the same, read from the last byte backwards (the
  argument and the result are the string reversed).
\<close>

fun trimEnd_rev :: "string \<Rightarrow> string" where
  "trimEnd_rev (c # b # a # s) =
     (if white1 c then trimEnd_rev (b # a # s)
      else if white2 b c then trimEnd_rev (a # s)
      else if white3 a b c then trimEnd_rev s
      else c # b # a # s)"
| "trimEnd_rev [c, b] =
     (if white1 c then trimEnd_rev [b] else if white2 b c then [] else [c, b])"
| "trimEnd_rev [c] = (if white1 c then [] else [c])"
| "trimEnd_rev [] = []"

text \<open>\<^verbatim>\<open>s.trim()\<close>: white space removed at both ends.\<close>

definition trim :: "string \<Rightarrow> string" where
  "trim s = rev (trimEnd_rev (rev (trimStart s)))"

section \<open>Streamed records and socket frames\<close>

text \<open>
  What \<^verbatim>\<open>JSON.parse(line)\<close> yields, as far as the relay looks at it: the three fields
  \<^verbatim>\<open>response\<close>, \<^verbatim>\<open>done\<close>, \<^verbatim>\<open>error\<close> of the upstream contract
  \<^verbatim>\<open>{response?: string, done?: bool, error?: string}\<close>.  An absent field is \<open>None\<close>
  (\<open>False\<close> for the flag).  \<^verbatim>\<open>JSON.parse\<close> itself belongs to the JavaScript runtime, so
  the decoder takes it as a parameter \<open>parse\<close>; \<open>None\<close> stands for a line on which the
  \<^verbatim>\<open>try\<close> block throws before anything is sent.
\<close>

record streamed_record =
  r_response :: "string option"
  r_done :: bool
  r_error :: "string option"

type_synonym json_parse = "string \<Rightarrow> streamed_record option"

text \<open>JavaScript truthiness of an optional string field: present and not empty.\<close>

fun truthy :: "string option \<Rightarrow> bool" where
  "truthy None = False"
| "truthy (Some s) = (s \<noteq> [])"

text \<open>
  The structured framing \<^verbatim>\<open>JSON.stringify({type, content})\<close>; \<open>filtered\<close> is
  \<open>True\<close> only for the frame that carries \<^verbatim>\<open>filtered: true\<close>.
\<close>

record envelope =
  etype :: string
  content :: string
  filtered :: bool

definition stream_frame :: "string \<Rightarrow> envelope" where
  "stream_frame s = \<lparr>etype = ''stream'', content = s, filtered = False\<rparr>"

definition complete_frame :: "string \<Rightarrow> envelope" where
  "complete_frame s = \<lparr>etype = ''complete'', content = s, filtered = False\<rparr>"

definition error_frame :: "string \<Rightarrow> envelope" where
  "error_frame s = \<lparr>etype = ''error'', content = s, filtered = False\<rparr>"

section \<open>The streaming decode loop of stream.js and finalserver.js\<close>

text \<open>
  The loop's variables: the carry-over \<^verbatim>\<open>buffer\<close>, the transcript
  \<^verbatim>\<open>fullResponse\<close>, and (in \<open>sent\<close>) the frames handed to \<^verbatim>\<open>ws.send\<close>, in order.
  Handing a frame to \<^verbatim>\<open>ws.send\<close> is taken to succeed.
\<close>

record decoder =
  buffer :: string
  fullResponse :: string
  sent :: "envelope list"

definition decoder_init :: decoder where
  "decoder_init = \<lparr>buffer = [], fullResponse = [], sent = []\<rparr>"

text \<open>
  The inner \<^verbatim>\<open>for (const line of lines)\<close>: a blank line is passed over, a line that
  does not parse is passed over by the empty \<^verbatim>\<open>catch\<close>, a record with a truthy
  \<^verbatim>\<open>response\<close> is appended and forwarded, and a record with a truthy \<^verbatim>\<open>done\<close>
  sends the completion frame and leaves the \<^verbatim>\<open>for\<close> loop by \<^verbatim>\<open>break\<close>.
\<close>

fun process_lines :: "json_parse \<Rightarrow> string list \<Rightarrow> decoder \<Rightarrow> decoder" where
  "process_lines parse [] d = d"
| "process_lines parse (line # rest) d =
     (if trim line = [] then process_lines parse rest d
      else (case parse line of
              None \<Rightarrow> process_lines parse rest d
            | Some json \<Rightarrow>
                (let d1 = (if truthy (r_response json)
                           then d\<lparr>fullResponse := fullResponse d @ the (r_response json),
                                  sent := sent d @ [stream_frame (the (r_response json))]\<rparr>
                           else d)
                 in if r_done json
                    then d1\<lparr>sent := sent d1 @ [complete_frame (fullResponse d1)]\<rparr>
                    else process_lines parse rest d1)))"

text \<open>
  One turn of \<^verbatim>\<open>while (true)\<close> after a read that delivered \<open>chunk\<close>:
  \<^verbatim>\<open>buffer += chunk; lines = buffer.split('\n'); buffer = lines.pop() || ""\<close>,
  then the \<^verbatim>\<open>for\<close> loop over the remaining \<open>lines\<close>.
\<close>

definition process_chunk :: "json_parse \<Rightarrow> string \<Rightarrow> decoder \<Rightarrow> decoder" where
  "process_chunk parse chunk d =
     (let lines = split_nl (buffer d @ chunk)
      in process_lines parse (butlast lines) (d\<lparr>buffer := last lines\<rparr>))"

text \<open>
  The \<^verbatim>\<open>while (true)\<close> loop over the reads of the body: the list holds the chunks
  that \<^verbatim>\<open>reader.read()\<close> delivers, in order; its end is the read that reports
  \<^verbatim>\<open>done\<close>, where the loop is left.  Nothing else leaves it.
\<close>

fun read_loop :: "json_parse \<Rightarrow> string list \<Rightarrow> decoder \<Rightarrow> decoder" where
  "read_loop parse [] d = d"
| "read_loop parse (chunk # reads) d = read_loop parse reads (process_chunk parse chunk d)"


section \<open>The upstream call as the relay sees it\<close>

text \<open>A thrown JavaScript error, with the two properties the handlers read.\<close>

record js_error =
  err_name :: string
  err_message :: string

text \<open>
  The body of \<^verbatim>\<open>POST /api/generate\<close>: \<^verbatim>\<open>stream: true\<close> always; the sampling
  options are floating-point constants that no handler reads back and are left out.
\<close>

record generate_request =
  g_model :: string
  g_prompt :: string
  g_system :: "string option"

text \<open>
  A response body is the chunks its reader delivers, in order, ended either by the
  read that reports \<^verbatim>\<open>done\<close> (\<open>failure = None\<close>) or by a read that rejects.
\<close>

record response_body =
  chunks :: "string list"
  failure :: "js_error option"

record http_response =
  ok :: bool
  status :: nat
  statusText :: string
  body :: "response_body option"

datatype fetch_result = Rejected js_error | Resolved http_response

text \<open>A number inside a template literal: its decimal digits.\<close>

fun show_nat :: "nat \<Rightarrow> string" where
  "show_nat n =
     (if n < 10 then [char_of (48 + n)]
      else show_nat (n div 10) @ [char_of (48 + n mod 10)])"

section \<open>Session validation (stream.js, finalserver.js)\<close>

record user_row =
  u_id :: nat
  full_name :: string

text \<open>
  The parsed session document, as far as it is read: \<^verbatim>\<open>sessionData.userId\<close>, a
  number (the key of the users table), \<open>None\<close> when the field is absent.
\<close>

record session_payload =
  userId :: "nat option"

text \<open>
  Everything \<^verbatim>\<open>validateUserSession\<close> reaches outside itself.  The two statements run
  through \<^verbatim>\<open>pool.execute\<close> either resolve to their rows or reject (store
  unreachable); \<^verbatim>\<open>JSON.parse\<close> and \<^verbatim>\<open>decodeURIComponent\<close> return or throw.
\<close>

record auth_env =
  sessions_query :: "string \<Rightarrow> js_error + string list"
  users_query :: "nat \<Rightarrow> js_error + user_row list"
  parse_session :: "string \<Rightarrow> js_error + session_payload"
  decodeURIComponent :: "string \<Rightarrow> js_error + string"

definition startsWith :: "string \<Rightarrow> string \<Rightarrow> bool" where
  "startsWith s p \<longleftrightarrow> take (length p) s = p"

text \<open>\<^verbatim>\<open>s.indexOf(c)\<close>, with \<open>None\<close> for \<^verbatim>\<open>-1\<close>.\<close>

fun indexOf :: "string \<Rightarrow> char \<Rightarrow> nat option" where
  "indexOf [] c = None"
| "indexOf (x # xs) c =
     (if x = c then Some 0 else map_option Suc (indexOf xs c))"

text \<open>
  \<^verbatim>\<open>cookieHeader.match(/sessionId=([^;]+)/)\<close>: the leftmost place where
  \<^verbatim>\<open>sessionId=\<close> is followed by at least one character other than \<^verbatim>\<open>;\<close>, and
  there the longest run of such characters (group 1).  \<open>None\<close> is no match.
\<close>

fun sessionMatch :: "string \<Rightarrow> string option" where
  "sessionMatch [] = None"
| "sessionMatch (c # cs) =
     (if startsWith (c # cs) ''sessionId='' \<and>
         takeWhile (\<lambda>x. x \<noteq> CHR '';'') (drop 10 (c # cs)) \<noteq> []
      then Some (takeWhile (\<lambda>x. x \<noteq> CHR '';'') (drop 10 (c # cs)))
      else sessionMatch cs)"

text \<open>
  The cleaning of the identifier: the prefix \<^verbatim>\<open>s:\<close>, then the percent-encoded
  prefix, then everything from the first dot on.
\<close>

definition clean_sessionId :: "auth_env \<Rightarrow> string \<Rightarrow> js_error + string" where
  "clean_sessionId env sessionId =
     (let s1 = (if startsWith sessionId ''s:'' then drop 2 sessionId else sessionId)
      in case (if startsWith s1 ''s%3A''
               then (case decodeURIComponent env s1 of
                       Inl e \<Rightarrow> Inl e
                     | Inr decoded \<Rightarrow> Inr (drop 2 decoded))
               else Inr s1) of
           Inl e \<Rightarrow> Inl e
         | Inr s2 \<Rightarrow>
             (case indexOf s2 CHR ''.'' of
                None \<Rightarrow> Inr s2
              | Some dotIndex \<Rightarrow> Inr (take dotIndex s2)))"

text \<open>
  The \<^verbatim>\<open>try\<close> block of \<^verbatim>\<open>validateUserSession\<close> in stream.js: \<open>Inl\<close> is an
  error thrown inside it, \<open>Inr None\<close> a \<^verbatim>\<open>return null\<close>, \<open>Inr (Some u)\<close> the
  user row.  The header is \<open>None\<close> when the request has no Cookie header; the empty
  string is falsy as well.  A \<^verbatim>\<open>userId\<close> of \<open>0\<close> is falsy.
\<close>

definition validate_try :: "auth_env \<Rightarrow> string option \<Rightarrow> js_error + user_row option" where
  "validate_try env cookieHeader =
     (case cookieHeader of
        None \<Rightarrow> Inr None
      | Some header \<Rightarrow>
          if header = [] then Inr None
          else (case sessionMatch header of
                  None \<Rightarrow> Inr None
                | Some m \<Rightarrow>
                    (case clean_sessionId env m of
                       Inl e \<Rightarrow> Inl e
                     | Inr sessionId \<Rightarrow>
                         (case sessions_query env sessionId of
                            Inl e \<Rightarrow> Inl e
                          | Inr [] \<Rightarrow> Inr None
                          | Inr (row # _) \<Rightarrow>
                              (case parse_session env row of
                                 Inl e \<Rightarrow> Inl e
                               | Inr sessionData \<Rightarrow>
                                   (case userId sessionData of
                                      None \<Rightarrow> Inr None
                                    | Some uid \<Rightarrow>
                                        if uid = 0 then Inr None
                                        else (case users_query env uid of
                                                Inl e \<Rightarrow> Inl e
                                              | Inr [] \<Rightarrow> Inr None
                                              | Inr (u # _) \<Rightarrow> Inr (Some u))))))))"

text \<open>
  \<^verbatim>\<open>validateUserSession\<close>: the \<^verbatim>\<open>try\<close> block under its
  \<^verbatim>\<open>catch (error) { ...; return null; }\<close>.  The result is what the returned promise
  settles to: \<open>Inl\<close> would be a rejection.
\<close>

definition validateUserSession :: "auth_env \<Rightarrow> string option \<Rightarrow> js_error + user_row option" where
  "validateUserSession env cookieHeader =
     (case validate_try env cookieHeader of
        Inl error \<Rightarrow> Inr None
      | Inr result \<Rightarrow> Inr result)"

section \<open>The message handler of stream.js\<close>

text \<open>What of the handshake request is in scope of the connection handler.\<close>

record handshake_request =
  cookie :: "string option"
  origin :: "string option"

text \<open>
  After \<^verbatim>\<open>await fetch(...)\<close>: the frames the handler sends for a given outcome of
  the upstream call.  A rejected fetch and a rejected read both land in the outer
  \<^verbatim>\<open>catch\<close>, which sends \<^verbatim>\<open>error.message\<close>.
\<close>

definition relay_response :: "json_parse \<Rightarrow> fetch_result \<Rightarrow> envelope list" where
  "relay_response parse r =
     (case r of
        Rejected e \<Rightarrow> [error_frame (err_message e)]
      | Resolved response \<Rightarrow>
          if \<not> ok response
          then [error_frame (''Ollama responded with status '' @ show_nat (status response))]
          else (case body response of
                  None \<Rightarrow> [error_frame ''No response body from Ollama'']
                | Some b \<Rightarrow>
                    (let d = read_loop parse (chunks b) decoder_init
                     in case failure b of
                          None \<Rightarrow> sent d
                        | Some e \<Rightarrow> sent d @ [error_frame (err_message e)])))"

text \<open>
  The \<^verbatim>\<open>message\<close> handler inside \<^verbatim>\<open>wss.on("connection", async (ws, req) => ...)\<close>
  of stream.js.  In scope are the handshake request \<open>req\<close> and the session store
  behind \<open>pool\<close> (here \<open>env\<close>); \<open>upstream\<close> answers the generation call.  The
  result is the request issued and the frames sent.
\<close>

definition stream_on_message ::
  "string \<Rightarrow> json_parse \<Rightarrow> (generate_request \<Rightarrow> fetch_result) \<Rightarrow>
   auth_env \<Rightarrow> handshake_request \<Rightarrow> string \<Rightarrow> generate_request \<times> envelope list" where
  "stream_on_message MODEL_NAME parse upstream env req input =
     (let prompt = trim input;
          request = \<lparr>g_model = MODEL_NAME, g_prompt = prompt, g_system = None\<rparr>
      in (request, relay_response parse (upstream request)))"


section \<open>The topic filter of finalserver.js\<close>

definition CODING_KEYWORDS :: "string list" where
  "CODING_KEYWORDS =
    [''code'', ''function'', ''variable'', ''constant'', ''parameter'', ''argument'',
     ''return'', ''loop'', ''for'', ''while'', ''do while'', ''foreach'', ''iteration'',
     ''break'', ''continue'', ''conditional'', ''if'', ''else'', ''switch'', ''case'',
     ''ternary'', ''operator'', ''data structure'', ''algorithm'', ''dsa'', ''array'',
     ''list'', ''string'', ''tuple'', ''linked list'', ''doubly linked list'',
     ''circular linked list'', ''stack'', ''queue'', ''deque'', ''heap'',
     ''priority queue'', ''tree'', ''binary tree'', ''binary search tree'', ''bst'',
     ''avl tree'', ''red black tree'', ''b tree'', ''trie'', ''graph'', ''directed graph'',
     ''undirected graph'', ''dag'', ''hash'', ''hash table'', ''hash map'', ''dictionary'',
     ''set'', ''matrix'', ''grid'', ''program'', ''hey'', ''hello'', ''hi'', ''sort'',
     ''bubble sort'', ''selection sort'', ''insertion sort'', ''merge sort'',
     ''quick sort'', ''heap sort'', ''counting sort'', ''radix sort'', ''bucket sort'',
     ''search'', ''linear search'', ''binary search'', ''depth first search'', ''dfs'',
     ''breadth first search'', ''bfs'', ''dijkstra'', ''bellman ford'', ''floyd warshall'',
     ''kruskal'', ''prim'', ''topological sort'', ''dynamic programming'', ''dp'',
     ''greedy'', ''backtracking'', ''divide and conquer'', ''recursion'', ''memoization'',
     ''optimization'', ''complexity'', ''Big O'', ''space complexity'',
     ''time complexity'', ''asymptotic'', ''amortized'', ''python'', ''javascript'',
     ''java'', ''cpp'', ''c++'', ''c'', ''csharp'', ''c#'', ''rust'', ''go'', ''golang'',
     ''ruby'', ''php'', ''swift'', ''kotlin'', ''typescript'', ''scala'', ''groovy'',
     ''perl'', ''r'', ''matlab'', ''lua'', ''haskell'', ''erlang'', ''clojure'', ''class'',
     ''object'', ''instance'', ''inheritance'', ''polymorphism'', ''encapsulation'',
     ''abstraction'', ''interface'', ''abstract'', ''method'', ''property'', ''attribute'',
     ''constructor'', ''destructor'', ''getter'', ''setter'', ''static'', ''final'',
     ''access modifier'', ''public'', ''private'', ''protected'', ''friend'', ''virtual'',
     ''override'', ''super'', ''functional'', ''lambda'', ''arrow function'', ''callback'',
     ''promise'', ''async'', ''await'', ''generator'', ''iterator'', ''map'', ''filter'',
     ''reduce'', ''fold'', ''pure function'', ''side effect'', ''immutable'',
     ''immutability'', ''closure'', ''debug'', ''breakpoint'', ''debugger'', ''console'',
     ''log'', ''error'', ''exception'', ''try catch'', ''finally'', ''throw'',
     ''stack trace'', ''assertion'', ''unit test'', ''integration test'', ''testing'',
     ''mock'', ''stub'', ''patch'', ''coverage'', ''syntax'', ''logic'', ''compile'',
     ''compiler'', ''interpreter'', ''bytecode'', ''ast'', ''parsing'', ''lexing'',
     ''token'', ''literal'', ''identifier'', ''keyword'', ''semicolon'', ''bracket'',
     ''brace'', ''syntax error'', ''runtime error'', ''html'', ''css'', ''dom'', ''api'',
     ''rest'', ''restful'', ''http'', ''https'', ''json'', ''xml'', ''yaml'', ''fetch'',
     ''ajax'', ''websocket'', ''framework'', ''library'', ''react'', ''vue'', ''angular'',
     ''node'', ''nodejs'', ''express'', ''flask'', ''django'', ''bootstrap'', ''tailwind'',
     ''webpack'', ''babel'', ''npm'', ''yarn'', ''pip'', ''maven'', ''database'', ''sql'',
     ''mysql'', ''postgresql'', ''mongodb'', ''redis'', ''nosql'', ''query'', ''select'',
     ''insert'', ''update'', ''delete'', ''join'', ''index'', ''primary key'',
     ''foreign key'', ''transaction'', ''orm'', ''normalization'', ''git'', ''github'',
     ''gitlab'', ''bitbucket'', ''commit'', ''push'', ''pull'', ''merge'', ''branch'',
     ''fork'', ''clone'', ''rebase'', ''stash'', ''diff'', ''conflict'', ''docker'',
     ''kubernetes'', ''container'', ''ci'', ''cd'', ''jenkins'', ''deployment'',
     ''production'', ''staging'', ''environment'', ''server'', ''client'', ''cloud'',
     ''aws'', ''azure'', ''gcp'', ''heroku'', ''lambda'', ''leetcode'', ''hackerrank'',
     ''codeforces'', ''codewars'', ''geeksforgeeks'', ''stack overflow'', ''github'',
     ''codepen'', ''replit'', ''design pattern'', ''solid'', ''dry'', ''kiss'', ''yagni'',
     ''refactor'', ''refactoring'', ''code review'', ''documentation'', ''comment'',
     ''clean code'', ''best practice'', ''convention'', ''style guide'', ''linter'',
     ''formatter'', ''prettier'', ''eslint'']"

definition POLITE_FILTER_MESSAGE :: string where
  "POLITE_FILTER_MESSAGE =
     ''I appreciate your question! However, I'm specifically designed to help with coding and Data Structures & Algorithms (DSA) topics. Could you please ask me something related to programming, algorithms, or data structures? I'd be happy to help! ''
     @ [CHR 0xF0, CHR 0x9F, CHR 0x98, CHR 0x8A]"

text \<open>
  \<^verbatim>\<open>String.prototype.toLowerCase\<close> follows the case tables of Unicode, which belong
  to the JavaScript runtime; like \<^verbatim>\<open>JSON.parse\<close> it is a parameter, \<open>toLowerCase\<close>.
\<close>

text \<open>\<^verbatim>\<open>s.includes(k)\<close>: \<open>k\<close> starts at some position of \<open>s\<close>.\<close>

fun str_includes :: "string \<Rightarrow> string \<Rightarrow> bool" where
  "str_includes [] k = (k = [])"
| "str_includes (c # cs) k = (startsWith (c # cs) k \<or> str_includes cs k)"

definition isCodeRelated :: "(string \<Rightarrow> string) \<Rightarrow> string \<Rightarrow> bool" where
  "isCodeRelated toLowerCase prompt =
     (let lowerPrompt = toLowerCase prompt
      in list_ex (\<lambda>keyword. str_includes lowerPrompt keyword) CODING_KEYWORDS)"

definition systemPrompt :: string where
  "systemPrompt = ''You are a helpful coding assistant. You will answer any coding and DSA (Data Structures and Algorithms) related questions..''"

text \<open>
  The \<^verbatim>\<open>message\<close> handler of finalserver.js: the request issued, if any, and the
  frames sent.  The decode loop after the fetch is the one of stream.js.
\<close>

definition finalserver_on_message ::
  "string \<Rightarrow> (string \<Rightarrow> string) \<Rightarrow> json_parse \<Rightarrow> (generate_request \<Rightarrow> fetch_result) \<Rightarrow>
   string \<Rightarrow> generate_request option \<times> envelope list" where
  "finalserver_on_message MODEL_NAME toLowerCase parse upstream input =
     (let prompt = trim input
      in if \<not> isCodeRelated toLowerCase prompt
         then (None, [\<lparr>etype = ''complete'', content = POLITE_FILTER_MESSAGE, filtered = True\<rparr>])
         else (let fullPrompt = systemPrompt @ [newline, newline] @ ''User: '' @ prompt;
                   request = \<lparr>g_model = MODEL_NAME, g_prompt = fullPrompt, g_system = None\<rparr>
               in (Some request, relay_response parse (upstream request))))"


section \<open>The relay llm1.js: the registry, the sockets and their handlers\<close>

text \<open>
  An entry of the registry \<^verbatim>\<open>activeConnections\<close>, which all sockets share.  A socket
  is known by a number, an \<^verbatim>\<open>AbortController\<close> by its identity, a number handed out
  afresh by every \<^verbatim>\<open>new AbortController()\<close>; \<open>None\<close> is \<^verbatim>\<open>null\<close>.
\<close>

type_synonym handle = nat

type_synonym sock = nat

record connection =
  socket :: sock
  isProcessing :: bool
  abortController :: "handle option"

text \<open>Where a running \<^verbatim>\<open>message\<close> handler is suspended.\<close>

datatype suspended = AwaitFetch | AwaitRead

text \<open>
  The state of the server: the registry, by key; for every socket whether its
  \<^verbatim>\<open>readyState\<close> is \<^verbatim>\<open>OPEN\<close>; the suspended runs of the \<^verbatim>\<open>message\<close> handlers
  (each known by the controller it created, with the socket of its closure); and
  four logs: the upstream calls started (with their signal), the controllers on
  which \<^verbatim>\<open>abort()\<close> was called, the frames handed to \<^verbatim>\<open>socket.send\<close>, each with
  its socket, and the entries \<^verbatim>\<open>activeConnections.delete\<close> took out of the registry,
  as they were then (every later write goes through the registry and cannot reach
  them).
\<close>

record world =
  activeConnections :: "string \<Rightarrow> connection option"
  socket_open :: "sock \<Rightarrow> bool"
  flights :: "(handle \<times> sock \<times> suspended) list"
  next_handle :: handle
  fetches :: "(handle \<times> generate_request) list"
  aborted :: "handle list"
  frames :: "(sock \<times> string) list"
  removed :: "connection list"

definition world_init :: world where
  "world_init = \<lparr>activeConnections = Map.empty, socket_open = (\<lambda>s. True), flights = [],
     next_handle = 0, fetches = [], aborted = [], frames = [], removed = []\<rparr>"

text \<open>
  What the event loop delivers: a socket is accepted, the events of a socket, and
  the settling of a pending await.
\<close>

datatype event =
    Connection sock
  | Message sock string
  | Close sock
  | SocketError sock
  | Closing sock
  | FetchResolved handle http_response
  | ReadValue handle string
  | ReadDone handle
  | Throws handle js_error

definition STRATIFY_SYSTEM :: string where
  "STRATIFY_SYSTEM = ''You are Stratify, an AI assistant created and maintained by K R Hari Prajwal. You are not developed by OpenAI or Meta. You are helpful, polite, and informative. If anyone asks about your name, creator, or background '' @ [CHR 0xE2, CHR 0x80, CHR 0x94] @ '' make sure you say: 'I am  Starify, designed by K R Hari Prajwal to help with queries.' Otherwise, respond normally like a helpful assistant.''"

definition greeting_frame :: string where
  "greeting_frame = ''Hi, I'm Stratify '' @ [CHR 0xF0, CHR 0x9F, CHR 0xA4, CHR 0x96, newline]"

definition done_frame :: string where
  "done_frame = [newline] @ ''['' @ [CHR 0xE2, CHR 0x9C, CHR 0x85] @ '' Done]''"

definition error_text :: "string \<Rightarrow> string" where
  "error_text message = ''['' @ [CHR 0xE2, CHR 0x9D, CHR 0x8C] @ '' Error] '' @ message"

definition send_frame :: "sock \<Rightarrow> string \<Rightarrow> world \<Rightarrow> world" where
  "send_frame s data w = w\<lparr>frames := frames w @ [(s, data)]\<rparr>"

text \<open>
  \<^verbatim>\<open>wss.on("connection", ...)\<close> for socket \<open>s\<close>: the entry is stored under the key
  \<open>connectionId\<close>, which the handler takes from \<^verbatim>\<open>Date.now().toString()\<close>; an entry
  already stored under that key is replaced.
\<close>

definition on_connection :: "string \<Rightarrow> sock \<Rightarrow> world \<Rightarrow> world" where
  "on_connection connectionId s w =
     w\<lparr>activeConnections := (activeConnections w)
          (connectionId \<mapsto> \<lparr>socket = s, isProcessing = False, abortController = None\<rparr>)\<rparr>"

text \<open>The \<^verbatim>\<open>catch (err)\<close> and \<^verbatim>\<open>finally\<close> blocks of the \<^verbatim>\<open>message\<close> handler.\<close>

definition catch_block :: "sock \<Rightarrow> js_error \<Rightarrow> world \<Rightarrow> world" where
  "catch_block s err w =
     (if socket_open w s \<and> err_name err \<noteq> ''AbortError''
      then send_frame s (error_text (err_message err)) w else w)"

definition finally_block :: "string \<Rightarrow> world \<Rightarrow> world" where
  "finally_block connectionId w =
     (case activeConnections w connectionId of
        None \<Rightarrow> w
      | Some c \<Rightarrow>
          w\<lparr>activeConnections := (activeConnections w)
               (connectionId \<mapsto> c\<lparr>isProcessing := False, abortController := None\<rparr>)\<rparr>)"

text \<open>The run of the handler that created controller \<open>h\<close> has come to its end.\<close>

definition settle :: "handle \<Rightarrow> world \<Rightarrow> world" where
  "settle h w = w\<lparr>flights := filter (\<lambda>f. fst f \<noteq> h) (flights w)\<rparr>"

definition throw_in_try :: "string \<Rightarrow> sock \<Rightarrow> handle \<Rightarrow> js_error \<Rightarrow> world \<Rightarrow> world" where
  "throw_in_try connectionId s h err w =
     settle h (finally_block connectionId (catch_block s err w))"

text \<open>After the \<^verbatim>\<open>while\<close> loop: the done message, if the socket is open; then \<^verbatim>\<open>finally\<close>.\<close>

definition after_loop :: "string \<Rightarrow> sock \<Rightarrow> handle \<Rightarrow> world \<Rightarrow> world" where
  "after_loop connectionId s h w =
     settle h (finally_block connectionId
       (if socket_open w s then send_frame s done_frame w else w))"

text \<open>
  The head of \<^verbatim>\<open>while (true)\<close>: a socket that is no longer open cancels the reader
  and leaves the loop; otherwise the handler waits for \<^verbatim>\<open>reader.read()\<close>.
\<close>

definition loop_head :: "string \<Rightarrow> sock \<Rightarrow> handle \<Rightarrow> world \<Rightarrow> world" where
  "loop_head connectionId s h w =
     (if \<not> socket_open w s then after_loop connectionId s h w
      else w\<lparr>flights := map (\<lambda>f. if fst f = h then (h, s, AwaitRead) else f) (flights w)\<rparr>)"

text \<open>
  The \<^verbatim>\<open>for\<close> loop over the non-blank lines of one chunk (no carry-over buffer in this
  file): the frames it sends.  The socket state cannot change while it runs.
\<close>

fun forward_lines :: "json_parse \<Rightarrow> bool \<Rightarrow> string list \<Rightarrow> string list" where
  "forward_lines parse is_open [] = []"
| "forward_lines parse is_open (line # rest) =
     (if \<not> is_open then []
      else (case parse line of
              None \<Rightarrow> forward_lines parse is_open rest
            | Some data \<Rightarrow>
                (if truthy (r_response data) \<and> is_open then [the (r_response data)] else [])
                @ forward_lines parse is_open rest))"

definition on_chunk :: "json_parse \<Rightarrow> sock \<Rightarrow> string \<Rightarrow> world \<Rightarrow> world" where
  "on_chunk parse s chunk w =
     (let lines = filter (\<lambda>line. trim line \<noteq> []) (split_nl chunk)
      in w\<lparr>frames := frames w @ map (Pair s) (forward_lines parse (socket_open w s) lines)\<rparr>)"

text \<open>
  The \<^verbatim>\<open>message\<close> handler of socket \<open>s\<close> up to \<^verbatim>\<open>await fetch(...)\<close>.  With no entry
  under its key, reading \<^verbatim>\<open>connection.isProcessing\<close> throws before the \<^verbatim>\<open>try\<close> and
  nothing else runs.
\<close>

definition on_message :: "string \<Rightarrow> string \<Rightarrow> sock \<Rightarrow> string \<Rightarrow> world \<Rightarrow> world" where
  "on_message MODEL_NAME connectionId s userInput w =
     (case activeConnections w connectionId of
        None \<Rightarrow> w
      | Some c \<Rightarrow>
          if isProcessing c then w
          else (let h = next_handle w;
                    w1 = w\<lparr>activeConnections := (activeConnections w)
                            (connectionId \<mapsto> c\<lparr>isProcessing := True, abortController := Some h\<rparr>),
                          next_handle := Suc h\<rparr>;
                    w2 = (if socket_open w1 s then send_frame s greeting_frame w1 else w1)
                in w2\<lparr>fetches := fetches w2 @
                          [(h, \<lparr>g_model = MODEL_NAME, g_prompt = userInput,
                                g_system = Some STRATIFY_SYSTEM\<rparr>)],
                       flights := flights w2 @ [(h, s, AwaitFetch)]\<rparr>))"

text \<open>The \<^verbatim>\<open>close\<close> and \<^verbatim>\<open>error\<close> handlers of a socket.\<close>

definition abort_pending :: "string \<Rightarrow> world \<Rightarrow> world" where
  "abort_pending connectionId w =
     (case activeConnections w connectionId of
        None \<Rightarrow> w
      | Some c \<Rightarrow>
          (case abortController c of
             None \<Rightarrow> w
           | Some h \<Rightarrow> w\<lparr>aborted := aborted w @ [h]\<rparr>))"

definition on_close :: "string \<Rightarrow> sock \<Rightarrow> world \<Rightarrow> world" where
  "on_close connectionId s w =
     (let w1 = abort_pending connectionId (w\<lparr>socket_open := (socket_open w)(s := False)\<rparr>)
      in w1\<lparr>activeConnections := (activeConnections w1)(connectionId := None),
            removed := removed w1 @
              (case activeConnections w1 connectionId of None \<Rightarrow> [] | Some c \<Rightarrow> [c])\<rparr>)"

definition on_error :: "string \<Rightarrow> world \<Rightarrow> world" where
  "on_error connectionId w = abort_pending connectionId w"

text \<open>
  One event.  \<open>connectionId s\<close> is the key the connection handler of socket \<open>s\<close>
  computed.  An await settles only for a run suspended there, and the run goes on
  with the socket and the key of its closure; the body of a response that is
  \<^verbatim>\<open>ok\<close> is read through \<^verbatim>\<open>response.body.getReader()\<close>, which throws a
  \<^verbatim>\<open>TypeError\<close> on a \<^verbatim>\<open>null\<close> body.
\<close>

definition step ::
  "string \<Rightarrow> (sock \<Rightarrow> string) \<Rightarrow> json_parse \<Rightarrow> event \<Rightarrow> world \<Rightarrow> world" where
  "step MODEL_NAME connectionId parse e w =
     (case e of
        Connection s \<Rightarrow> on_connection (connectionId s) s w
      | Message s userInput \<Rightarrow> on_message MODEL_NAME (connectionId s) s userInput w
      | Close s \<Rightarrow> on_close (connectionId s) s w
      | SocketError s \<Rightarrow> on_error (connectionId s) w
      | Closing s \<Rightarrow> w\<lparr>socket_open := (socket_open w)(s := False)\<rparr>
      | FetchResolved h response \<Rightarrow>
          (case map_of (flights w) h of
             None \<Rightarrow> w
           | Some (s, at) \<Rightarrow>
               if at \<noteq> AwaitFetch then w
               else if \<not> ok response
               then throw_in_try (connectionId s) s h
                      \<lparr>err_name = ''Error'',
                       err_message = ''Ollama API error: '' @ show_nat (status response) @ '' ''
                                     @ statusText response\<rparr> w
               else if body response = None
               then throw_in_try (connectionId s) s h
                      \<lparr>err_name = ''TypeError'',
                       err_message = ''Cannot read properties of null (reading 'getReader')''\<rparr> w
               else loop_head (connectionId s) s h w)
      | ReadValue h chunk \<Rightarrow>
          (case map_of (flights w) h of
             None \<Rightarrow> w
           | Some (s, at) \<Rightarrow>
               if at \<noteq> AwaitRead then w
               else loop_head (connectionId s) s h (on_chunk parse s chunk w))
      | ReadDone h \<Rightarrow>
          (case map_of (flights w) h of
             None \<Rightarrow> w
           | Some (s, at) \<Rightarrow>
               if at \<noteq> AwaitRead then w
               else after_loop (connectionId s) s h w)
      | Throws h err \<Rightarrow>
          (case map_of (flights w) h of
             None \<Rightarrow> w
           | Some (s, at) \<Rightarrow> throw_in_try (connectionId s) s h err w))"

text \<open>A run of events, in the order the event loop delivers them.\<close>

fun run ::
  "string \<Rightarrow> (sock \<Rightarrow> string) \<Rightarrow> json_parse \<Rightarrow> event list \<Rightarrow> world \<Rightarrow> world" where
  "run MODEL_NAME connectionId parse [] w = w"
| "run MODEL_NAME connectionId parse (e # es) w =
     run MODEL_NAME connectionId parse es (step MODEL_NAME connectionId parse e w)"

section \<open>The authenticated relay llm3.js (listed in src/llm1.js)\<close>

text \<open>
  \<^verbatim>\<open>safeSend(socket, data)\<close>: the frames that reach the socket, none unless it is open
  (a \<^verbatim>\<open>send\<close> that throws is caught there and delivers nothing either).
\<close>

definition safeSend :: "bool \<Rightarrow> string \<Rightarrow> string list" where
  "safeSend is_open data = (if is_open then [data] else [])"

text \<open>
  The \<^verbatim>\<open>try\<close> block of this file's \<^verbatim>\<open>validateUserSession\<close>.  It differs from the
  one of stream.js in that \<^verbatim>\<open>JSON.parse\<close> has a \<^verbatim>\<open>try\<close> of its own, which returns
  \<^verbatim>\<open>null\<close>; the extra query after a lookup miss only logs, inside a \<^verbatim>\<open>try\<close> of its
  own, and is left out.
\<close>

definition gated_validate_try :: "auth_env \<Rightarrow> string option \<Rightarrow> js_error + user_row option" where
  "gated_validate_try env cookieHeader =
     (case cookieHeader of
        None \<Rightarrow> Inr None
      | Some header \<Rightarrow>
          if header = [] then Inr None
          else (case sessionMatch header of
                  None \<Rightarrow> Inr None
                | Some m \<Rightarrow>
                    (case clean_sessionId env m of
                       Inl e \<Rightarrow> Inl e
                     | Inr sessionId \<Rightarrow>
                         (case sessions_query env sessionId of
                            Inl e \<Rightarrow> Inl e
                          | Inr [] \<Rightarrow> Inr None
                          | Inr (row # _) \<Rightarrow>
                              (case parse_session env row of
                                 Inl parseError \<Rightarrow> Inr None
                               | Inr sessionData \<Rightarrow>
                                   (case userId sessionData of
                                      None \<Rightarrow> Inr None
                                    | Some uid \<Rightarrow>
                                        if uid = 0 then Inr None
                                        else (case users_query env uid of
                                                Inl e \<Rightarrow> Inl e
                                              | Inr [] \<Rightarrow> Inr None
                                              | Inr (u # _) \<Rightarrow> Inr (Some u))))))))"

definition gated_validateUserSession ::
  "auth_env \<Rightarrow> string option \<Rightarrow> js_error + user_row option" where
  "gated_validateUserSession env cookieHeader =
     (case gated_validate_try env cookieHeader of
        Inl error \<Rightarrow> Inr None
      | Inr result \<Rightarrow> Inr result)"

text \<open>
  Step 1 of the connection handler: the frames sent, and either the user the
  connection goes on with or the code and reason of \<^verbatim>\<open>ws.close\<close>.
\<close>

datatype handshake_result = Ready user_row | Closed nat string

definition welcome_frame :: "string \<Rightarrow> string" where
  "welcome_frame name = ''Hi '' @ name @ ''! I'm Smart Starify ''
     @ [CHR 0xF0, CHR 0x9F, CHR 0xA4, CHR 0x96, newline]
     @ ''How can I help you code today?'' @ [newline, newline]"

definition login_frame :: string where
  "login_frame = [CHR 0xF0, CHR 0x9F, CHR 0x94, CHR 0x90]
     @ '' Please login to Smart Code Hub first, then try connecting again.'' @ [newline]"

definition unavailable_frame :: string where
  "unavailable_frame = [CHR 0xE2, CHR 0x9A, CHR 0xA0, CHR 0xEF, CHR 0xB8, CHR 0x8F]
     @ '' Authentication service temporarily unavailable. Please try again.'' @ [newline]"

definition gated_handshake ::
  "auth_env \<Rightarrow> bool \<Rightarrow> handshake_request \<Rightarrow> string list \<times> handshake_result" where
  "gated_handshake env is_open req =
     (case gated_validateUserSession env (cookie req) of
        Inr (Some user) \<Rightarrow> (safeSend is_open (welcome_frame (full_name user)), Ready user)
      | Inr None \<Rightarrow> (safeSend is_open login_frame, Closed 1008 ''Authentication required'')
      | Inl authError \<Rightarrow>
          (safeSend is_open unavailable_frame, Closed 1011 ''Authentication error''))"

text \<open>
  The decode loop of this file's \<^verbatim>\<open>message\<close> handler.  \<open>ws_open\<close> is whether
  \<^verbatim>\<open>ws.readyState\<close> is \<^verbatim>\<open>OPEN\<close>; it can change only while a read is awaited, so
  every read comes with the state found when it settles.
\<close>

record gated_decoder =
  g_buffer :: string
  g_fullResponse :: string
  g_sent :: "string list"
  ws_open :: bool

definition complete_text :: string where
  "complete_text = [newline, newline] @ ''---'' @ [newline] @ ''*Response complete* ''
     @ [CHR 0xE2, CHR 0x9C, CHR 0x85, newline]"

definition upstream_error_text :: "string \<Rightarrow> string" where
  "upstream_error_text e = [newline, CHR 0xE2, CHR 0x9D, CHR 0x8C] @ '' Error: '' @ e @ [newline]"

fun gated_lines :: "json_parse \<Rightarrow> string list \<Rightarrow> gated_decoder \<Rightarrow> gated_decoder" where
  "gated_lines parse [] d = d"
| "gated_lines parse (line # rest) d =
     (if trim line = [] then gated_lines parse rest d
      else (case parse line of
              None \<Rightarrow> gated_lines parse rest d
            | Some data \<Rightarrow>
                (let d1 = (if truthy (r_response data)
                           then d\<lparr>g_sent := g_sent d @ safeSend (ws_open d) (the (r_response data)),
                                  g_fullResponse := g_fullResponse d @ the (r_response data)\<rparr>
                           else d)
                 in if r_done data
                    then d1\<lparr>g_sent := g_sent d1 @ safeSend (ws_open d1) complete_text\<rparr>
                    else if truthy (r_error data)
                    then d1\<lparr>g_sent := g_sent d1 @
                               safeSend (ws_open d1) (upstream_error_text (the (r_error data)))\<rparr>
                    else gated_lines parse rest d1)))"

definition gated_chunk :: "json_parse \<Rightarrow> string \<Rightarrow> gated_decoder \<Rightarrow> gated_decoder" where
  "gated_chunk parse chunk d =
     (let lines = split_nl (g_buffer d @ chunk)
      in gated_lines parse (butlast lines) (d\<lparr>g_buffer := last lines\<rparr>))"

fun gated_read_loop ::
  "json_parse \<Rightarrow> (string \<times> bool) list \<Rightarrow> gated_decoder \<Rightarrow> gated_decoder" where
  "gated_read_loop parse [] d = d"
| "gated_read_loop parse ((chunk, open_now) # reads) d =
     (if \<not> ws_open d then d
      else gated_read_loop parse reads (gated_chunk parse chunk (d\<lparr>ws_open := open_now\<rparr>)))"

definition gated_decoder_init :: gated_decoder where
  "gated_decoder_init = \<lparr>g_buffer = [], g_fullResponse = [], g_sent = [], ws_open = True\<rparr>"

section \<open>Lines used in the examples\<close>

text \<open>
  \<^verbatim>\<open>JSON.parse\<close> on the lines the examples below are made of: the six records listed,
  and \<open>None\<close> for the pieces and the noise, none of which is JSON.
\<close>

definition sample_parse :: json_parse where
  \<open>sample_parse line =
     (if line = ''{"response":"x"}''
      then Some \<lparr>r_response = Some ''x'', r_done = False, r_error = None\<rparr>
      else if line = ''{"response":"Hello"}''
      then Some \<lparr>r_response = Some ''Hello'', r_done = False, r_error = None\<rparr>
      else if line = ''{"response":" world"}''
      then Some \<lparr>r_response = Some '' world'', r_done = False, r_error = None\<rparr>
      else if line = ''{"response":""}''
      then Some \<lparr>r_response = Some [], r_done = False, r_error = None\<rparr>
      else if line = ''{"done":true}''
      then Some \<lparr>r_response = None, r_done = True, r_error = None\<rparr>
      else if line = ''{"error":"boom"}''
      then Some \<lparr>r_response = None, r_done = False, r_error = Some ''boom''\<rparr>
      else None)\<close>


text \<open>
  \<^verbatim>\<open>toLowerCase\<close> on strings of ASCII characters, which is all the examples use:
  the letters \<^verbatim>\<open>A\<close> to \<^verbatim>\<open>Z\<close> become \<^verbatim>\<open>a\<close> to \<^verbatim>\<open>z\<close>.
\<close>

definition ascii_lower :: "string \<Rightarrow> string" where
  "ascii_lower s =
     map (\<lambda>c. if 65 \<le> (of_char c :: nat) \<and> (of_char c :: nat) \<le> 90
              then char_of ((of_char c :: nat) + 32) else c) s"

text \<open>
  A session store for the examples: session \<^verbatim>\<open>good\<close> belongs to user 7, session
  \<^verbatim>\<open>orphan\<close> names a user that has no row, \<^verbatim>\<open>broken\<close> holds a payload that is not
  JSON, \<^verbatim>\<open>anon\<close> a payload without \<^verbatim>\<open>userId\<close>, and the lookup of \<^verbatim>\<open>down\<close>
  rejects, as every query does while the store is unreachable.  \<^verbatim>\<open>JSON.parse\<close> and
  \<^verbatim>\<open>decodeURIComponent\<close> are given on the strings the examples use.
\<close>

definition sample_env :: auth_env where
  \<open>sample_env =
     \<lparr>sessions_query = (\<lambda>sid.
          if sid = ''good'' then Inr [''{"userId":7}'']
          else if sid = ''orphan'' then Inr [''{"userId":9}'']
          else if sid = ''broken'' then Inr [''not json'']
          else if sid = ''anon'' then Inr [''{}'']
          else if sid = ''down''
          then Inl \<lparr>err_name = ''Error'', err_message = ''connect ECONNREFUSED 127.0.0.1:3306''\<rparr>
          else Inr []),
      users_query = (\<lambda>uid. if uid = 7 then Inr [\<lparr>u_id = 7, full_name = ''Ada''\<rparr>] else Inr []),
      parse_session = (\<lambda>data.
          if data = ''{"userId":7}'' then Inr \<lparr>userId = Some 7\<rparr>
          else if data = ''{"userId":9}'' then Inr \<lparr>userId = Some 9\<rparr>
          else if data = ''{}'' then Inr \<lparr>userId = None\<rparr>
          else Inl \<lparr>err_name = ''SyntaxError'', err_message = ''Unexpected token''\<rparr>),
      decodeURIComponent = (\<lambda>s.
          if s = ''s%3Agood.sig'' then Inr ''s:good.sig''
          else if CHR ''%'' \<in> set s
          then Inl \<lparr>err_name = ''URIError'', err_message = ''URI malformed''\<rparr>
          else Inr s)\<rparr>\<close>

text \<open>
  A connection in the middle of a generation, for the examples: socket 0 was
  accepted under a key of its own, a prompt was received, the upstream call
  answered, and one chunk has been forwarded.  \<open>own_keys\<close> gives every socket a
  key of its own, \<open>same_key\<close> gives all sockets one key, as \<^verbatim>\<open>Date.now()\<close> does
  for the sockets accepted within one millisecond.
\<close>

fun own_keys :: "sock \<Rightarrow> string" where
  "own_keys s = (if s = 0 then ''1700000000000'' else ''1700000000001'' @ show_nat s)"

fun same_key :: "sock \<Rightarrow> string" where
  "same_key s = ''1700000000000''"

definition sample_flight :: world where
  \<open>sample_flight =
     run ''codellama'' own_keys sample_parse
       ([] @ Connection 0 #
        [Message 0 ''hi'',
         FetchResolved 0 \<lparr>ok = True, status = 200, statusText = ''OK'',
                           body = Some \<lparr>chunks = [], failure = None\<rparr>\<rparr>,
         ReadValue 0 (''{"response":"x"}'' @ [newline])])
       world_init\<close>

section \<open>Notions used in the statements\<close>

text \<open>A line at which the \<^verbatim>\<open>for\<close> loop of the decoder is left by \<^verbatim>\<open>break\<close>.\<close>

definition breaks_on :: "json_parse \<Rightarrow> string \<Rightarrow> bool" where
  "breaks_on parse line \<longleftrightarrow>
     trim line \<noteq> [] \<and> (case parse line of None \<Rightarrow> False | Some json \<Rightarrow> r_done json)"

text \<open>The complete lines of a byte string: all but what follows the last line feed.\<close>

definition complete_lines :: "string \<Rightarrow> string list" where
  "complete_lines bytes = butlast (split_nl bytes)"

text \<open>Newline-delimited records on the wire: every line ends with a line feed.\<close>

definition wire :: "string list \<Rightarrow> string" where
  "wire ls = concat (map (\<lambda>l. l @ [newline]) ls)"


text \<open>
  A line of the wire that decodes to a record with the text fragment \<open>x\<close> and no
  completion flag, and one that decodes to a record with the completion flag alone.
\<close>

definition response_line :: "json_parse \<Rightarrow> string \<Rightarrow> string \<Rightarrow> bool" where
  "response_line parse l x \<longleftrightarrow>
     newline \<notin> set l \<and> trim l \<noteq> [] \<and>
     (case parse l of None \<Rightarrow> False | Some json \<Rightarrow> r_response json = Some x \<and> \<not> r_done json)"

definition done_line :: "json_parse \<Rightarrow> string \<Rightarrow> bool" where
  "done_line parse l \<longleftrightarrow>
     newline \<notin> set l \<and> trim l \<noteq> [] \<and>
     (case parse l of None \<Rightarrow> False | Some json \<Rightarrow> r_response json = None \<and> r_done json)"

text \<open>The suspended handler runs of socket \<open>s\<close>, and the frames sent to it.\<close>

definition own_flights :: "sock \<Rightarrow> world \<Rightarrow> (handle \<times> sock \<times> suspended) list" where
  "own_flights s w = filter (\<lambda>f. fst (snd f) = s) (flights w)"

definition frames_of :: "sock \<Rightarrow> world \<Rightarrow> string list" where
  "frames_of s w = map snd (filter (\<lambda>f. fst f = s) (frames w))"

text \<open>
  What holds of the controllers in every state: no two suspended runs have the
  same one, each is older than the next one to be handed out and is the signal of an
  upstream call that was started, as is every controller in the log of calls.
\<close>

definition handles_inv :: "world \<Rightarrow> bool" where
  "handles_inv w \<longleftrightarrow>
     distinct (map fst (flights w)) \<and>
     (\<forall>f\<in>set (flights w). fst f < next_handle w \<and> fst f \<in> fst ` set (fetches w)) \<and>
     (\<forall>f\<in>set (fetches w). fst f < next_handle w)"

text \<open>
  What holds of a socket \<open>s\<close> that shares its key \<open>k\<close> with no other socket, from
  its acceptance on: at most one of its handler runs is suspended; as long as its
  entry is registered, the entry is busy and holds that run's controller; and with
  no run suspended the entry is idle.  Before the socket is accepted it has no run
  and no entry.
\<close>

definition flight_inv :: "string \<Rightarrow> sock \<Rightarrow> world \<Rightarrow> bool" where
  "flight_inv k s w \<longleftrightarrow>
     length (own_flights s w) \<le> 1 \<and>
     (\<forall>f\<in>set (own_flights s w).
        \<forall>c. activeConnections w k = Some c \<longrightarrow>
           isProcessing c \<and> abortController c = Some (fst f)) \<and>
     (own_flights s w = [] \<longrightarrow>
        (\<forall>c. activeConnections w k = Some c \<longrightarrow>
           \<not> isProcessing c \<and> abortController c = None))"

definition not_accepted :: "string \<Rightarrow> sock \<Rightarrow> world \<Rightarrow> bool" where
  "not_accepted k s w \<longleftrightarrow> own_flights s w = [] \<and> activeConnections w k = None"

section \<open>White space\<close>

text \<open>
  \<^verbatim>\<open>trim\<close> removes each of the twenty-five white space and line terminator
  characters, at both ends and in any number, and nothing else: U+0085, U+180E,
  U+200B and U+2060, which are no white space in ECMAScript, stay, and so does white
  space inside the string.
\<close>

lemma trim_white_space:
  \<open>trim (
      [CHR 0x09, CHR 0x0A, CHR 0x0B, CHR 0x0C, CHR 0x0D, CHR 0x20, CHR 0xC2, CHR 0xA0,
       CHR 0xE1, CHR 0x9A, CHR 0x80, CHR 0xE2, CHR 0x80, CHR 0x80, CHR 0xE2, CHR 0x80,
       CHR 0x81, CHR 0xE2, CHR 0x80, CHR 0x82, CHR 0xE2, CHR 0x80, CHR 0x83, CHR 0xE2,
       CHR 0x80, CHR 0x84, CHR 0xE2, CHR 0x80, CHR 0x85, CHR 0xE2, CHR 0x80, CHR 0x86,
       CHR 0xE2, CHR 0x80, CHR 0x87, CHR 0xE2, CHR 0x80, CHR 0x88, CHR 0xE2, CHR 0x80,
       CHR 0x89, CHR 0xE2, CHR 0x80, CHR 0x8A, CHR 0xE2, CHR 0x80, CHR 0xA8, CHR 0xE2,
       CHR 0x80, CHR 0xA9, CHR 0xE2, CHR 0x80, CHR 0xAF, CHR 0xE2, CHR 0x81, CHR 0x9F,
       CHR 0xE3, CHR 0x80, CHR 0x80, CHR 0xEF, CHR 0xBB, CHR 0xBF] @ ''a b'' @
      [CHR 0x09, CHR 0x0A, CHR 0x0B, CHR 0x0C, CHR 0x0D, CHR 0x20, CHR 0xC2, CHR 0xA0,
       CHR 0xE1, CHR 0x9A, CHR 0x80, CHR 0xE2, CHR 0x80, CHR 0x80, CHR 0xE2, CHR 0x80,
       CHR 0x81, CHR 0xE2, CHR 0x80, CHR 0x82, CHR 0xE2, CHR 0x80, CHR 0x83, CHR 0xE2,
       CHR 0x80, CHR 0x84, CHR 0xE2, CHR 0x80, CHR 0x85, CHR 0xE2, CHR 0x80, CHR 0x86,
       CHR 0xE2, CHR 0x80, CHR 0x87, CHR 0xE2, CHR 0x80, CHR 0x88, CHR 0xE2, CHR 0x80,
       CHR 0x89, CHR 0xE2, CHR 0x80, CHR 0x8A, CHR 0xE2, CHR 0x80, CHR 0xA8, CHR 0xE2,
       CHR 0x80, CHR 0xA9, CHR 0xE2, CHR 0x80, CHR 0xAF, CHR 0xE2, CHR 0x81, CHR 0x9F,
       CHR 0xE3, CHR 0x80, CHR 0x80, CHR 0xEF, CHR 0xBB, CHR 0xBF]) = ''a b''\<close>
  \<open>trim ([CHR 0xC2, CHR 0x85] @ ''a'' @ [CHR 0xC2, CHR 0x85]) = [CHR 0xC2, CHR 0x85] @ ''a'' @ [CHR 0xC2, CHR 0x85]\<close>
  \<open>trim ([CHR 0xE2, CHR 0x80, CHR 0x8B] @ ''a'' @ [CHR 0xE2, CHR 0x80, CHR 0x8B]) = [CHR 0xE2, CHR 0x80, CHR 0x8B] @ ''a'' @ [CHR 0xE2, CHR 0x80, CHR 0x8B]\<close>
  \<open>trim ([CHR 0xE1, CHR 0xA0, CHR 0x8E] @ ''a'' @ [CHR 0xE1, CHR 0xA0, CHR 0x8E]) = [CHR 0xE1, CHR 0xA0, CHR 0x8E] @ ''a'' @ [CHR 0xE1, CHR 0xA0, CHR 0x8E]\<close>
  \<open>trim ([CHR 0xE2, CHR 0x81, CHR 0xA0] @ ''a'' @ [CHR 0xE2, CHR 0x81, CHR 0xA0]) = [CHR 0xE2, CHR 0x81, CHR 0xA0] @ ''a'' @ [CHR 0xE2, CHR 0x81, CHR 0xA0]\<close>
  \<open>trim [] = []\<close>
  \<open>trim '' '' = []\<close>
  by code_simp+

section \<open>Line splitting and the decode loop\<close>

lemma split_nl_nonempty [simp]: "split_nl s \<noteq> []"
  by (induction s) (auto split: list.splits)

lemma split_nl_no_newline: "newline \<notin> set a \<Longrightarrow> split_nl a = [a]"
  by (induction a) auto

lemma split_nl_line: "newline \<notin> set a \<Longrightarrow> split_nl (a @ newline # b) = a # split_nl b"
  by (induction a) auto

lemma split_nl_append:
  "split_nl (a @ b) = butlast (split_nl a) @ split_nl (last (split_nl a) @ b)"
proof (induction a)
  case Nil
  then show ?case by simp
next
  case (Cons c a)
  show ?case
  proof (cases "c = newline")
    case True
    with Cons show ?thesis by simp
  next
    case False
    obtain l ls where sa: "split_nl a = l # ls"
      by (cases "split_nl a") auto
    show ?thesis
    proof (cases ls)
      case Nil
      with sa False Cons show ?thesis
        by (auto split: list.splits)
    next
      case (Cons l' ls')
      with sa False Cons.IH show ?thesis
        by (auto split: list.splits)
    qed
  qed
qed

lemma last_split_nl_no_newline: "newline \<notin> set (last (split_nl s))"
  by (induction s) (auto split: list.splits)

lemma split_nl_wire:
  "\<forall>l\<in>set ls. newline \<notin> set l \<Longrightarrow> split_nl (wire ls) = ls @ [[]]"
  by (induction ls) (auto simp: wire_def split_nl_line)

lemma process_lines_buffer [simp]: "buffer (process_lines parse ls d) = buffer d"
  by (induction parse ls d rule: process_lines.induct) (auto simp: Let_def split: option.splits)

lemma process_lines_buffer_explicit:
  "process_lines parse ls \<lparr>buffer = b, fullResponse = f, sent = s\<rparr> =
   (process_lines parse ls \<lparr>buffer = b', fullResponse = f, sent = s\<rparr>)\<lparr>buffer := b\<rparr>"
  by (induction ls arbitrary: f s) (auto simp: Let_def split: option.splits)

lemma process_lines_buffer_update:
  "process_lines parse ls (d\<lparr>buffer := b\<rparr>) = (process_lines parse ls d)\<lparr>buffer := b\<rparr>"
  by (cases d) (simp add: process_lines_buffer_explicit [where b = b])

lemma process_lines_append:
  "\<forall>l\<in>set l1. \<not> breaks_on parse l \<Longrightarrow>
   process_lines parse (l1 @ l2) d = process_lines parse l2 (process_lines parse l1 d)"
  by (induction parse l1 d rule: process_lines.induct)
     (auto simp: Let_def breaks_on_def split: option.splits)

lemma process_lines_skip:
  "parse bad = None \<Longrightarrow>
   process_lines parse (l1 @ bad # l2) d = process_lines parse (l1 @ l2) d"
  by (induction parse l1 d rule: process_lines.induct)
     (auto simp: Let_def split: option.splits)

lemma read_loop_append:
  "read_loop parse (a @ b) d = read_loop parse b (read_loop parse a d)"
  by (induction a arbitrary: d) auto

lemma buffer_process_chunk:
  "buffer (process_chunk parse c d) = last (split_nl (buffer d @ c))"
  by (simp add: process_chunk_def Let_def)

lemma buffer_read_loop:
  "newline \<notin> set (buffer d) \<Longrightarrow>
   buffer (read_loop parse cs d) = last (split_nl (buffer d @ concat cs))"
proof (induction cs arbitrary: d)
  case Nil
  then show ?case by (simp add: split_nl_no_newline)
next
  case (Cons c cs)
  have nb: "newline \<notin> set (buffer (process_chunk parse c d))"
    by (simp add: buffer_process_chunk last_split_nl_no_newline)
  have "buffer (read_loop parse (c # cs) d)
        = last (split_nl (last (split_nl (buffer d @ c)) @ concat cs))"
    using Cons.IH [OF nb] by (simp add: buffer_process_chunk)
  also have "\<dots> = last (split_nl ((buffer d @ c) @ concat cs))"
    by (subst split_nl_append [of "buffer d @ c"]) simp
  finally show ?case by simp
qed

lemma read_loop_lines:
  assumes "newline \<notin> set (buffer d)"
    and "\<forall>l\<in>set (butlast (complete_lines (buffer d @ concat cs))). \<not> breaks_on parse l"
  shows "read_loop parse cs d =
         process_lines parse (complete_lines (buffer d @ concat cs))
           (d\<lparr>buffer := last (split_nl (buffer d @ concat cs))\<rparr>)"
  using assms
proof (induction cs arbitrary: d)
  case Nil
  then show ?case by (simp add: split_nl_no_newline complete_lines_def)
next
  case (Cons c cs)
  let ?L1 = "split_nl (buffer d @ c)"
  let ?d' = "process_chunk parse c d"
  let ?L2 = "split_nl (buffer ?d' @ concat cs)"
  have bd': "buffer ?d' = last ?L1" by (simp add: buffer_process_chunk)
  have nb: "newline \<notin> set (buffer ?d')"
    by (simp add: bd' last_split_nl_no_newline)
  have all: "split_nl (buffer d @ concat (c # cs)) = butlast ?L1 @ ?L2"
    using split_nl_append [of "buffer d @ c" "concat cs"] by (simp add: bd')
  have cl: "complete_lines (buffer d @ concat (c # cs)) = butlast ?L1 @ butlast ?L2"
    unfolding complete_lines_def all by (simp add: butlast_append)
  have lastall: "last (split_nl (buffer d @ concat (c # cs))) = last ?L2"
    unfolding all by simp
  have hyp: "\<forall>l\<in>set (butlast (butlast ?L1 @ butlast ?L2)). \<not> breaks_on parse l"
    using Cons.prems(2) unfolding cl .
  have hyp2: "\<forall>l\<in>set (butlast (complete_lines (buffer ?d' @ concat cs))). \<not> breaks_on parse l"
    using hyp by (auto simp: complete_lines_def butlast_append split: if_splits)
  have ih: "read_loop parse cs ?d' =
            process_lines parse (butlast ?L2) (?d'\<lparr>buffer := last ?L2\<rparr>)"
    using Cons.IH [OF nb hyp2] by (simp add: complete_lines_def)
  have d'eq: "?d'\<lparr>buffer := last ?L2\<rparr> = process_lines parse (butlast ?L1) (d\<lparr>buffer := last ?L2\<rparr>)"
    by (simp add: process_chunk_def Let_def process_lines_buffer_update)
  show ?case
  proof (cases "butlast ?L2 = []")
    case True
    then show ?thesis
      using ih d'eq cl lastall by simp
  next
    case False
    then have "\<forall>l\<in>set (butlast ?L1). \<not> breaks_on parse l"
      using hyp by (auto simp: butlast_append)
    then have "process_lines parse (butlast ?L1 @ butlast ?L2) (d\<lparr>buffer := last ?L2\<rparr>)
               = process_lines parse (butlast ?L2)
                   (process_lines parse (butlast ?L1) (d\<lparr>buffer := last ?L2\<rparr>))"
      by (rule process_lines_append)
    then show ?thesis
      using ih d'eq cl lastall by simp
  qed
qed


lemma process_fragments:
  "list_all2 (response_line parse) ls xs \<Longrightarrow>
   process_lines parse (ls @ rest) \<lparr>buffer = b, fullResponse = f, sent = s\<rparr> =
   process_lines parse rest
     \<lparr>buffer = b, fullResponse = f @ concat xs,
      sent = s @ map stream_frame (filter (\<lambda>x. x \<noteq> []) xs)\<rparr>"
proof (induction ls xs arbitrary: f s rule: list_all2_induct)
  case Nil
  then show ?case by simp
next
  case (Cons l ls x xs)
  from Cons.hyps(1) obtain json where
    j: "trim l \<noteq> []" "parse l = Some json" "r_response json = Some x" "\<not> r_done json"
    by (auto simp: response_line_def split: option.splits)
  show ?case
    using j Cons.IH by (cases "x = []") (simp_all add: Let_def)
qed

lemma response_lines_no_break:
  "list_all2 (response_line parse) ls xs \<Longrightarrow> \<forall>l\<in>set ls. \<not> breaks_on parse l \<and> newline \<notin> set l"
  by (induction ls xs rule: list_all2_induct)
     (auto simp: response_line_def breaks_on_def split: option.splits)

section \<open>The relayed transcript\<close>

lemma concat_nonempty: "concat (filter (\<lambda>x. x \<noteq> []) xs) = concat xs"
  by (induction xs) simp_all

lemma stream_frames_content:
  "concat (map content (filter (\<lambda>f. etype f = ''stream'')
             (map stream_frame ys @ [complete_frame t]))) = concat ys"
  by (induction ys) (simp_all add: stream_frame_def complete_frame_def)

lemma complete_frames_only:
  "filter (\<lambda>f. etype f = ''complete'') (map stream_frame ys @ [complete_frame t])
     = [complete_frame t]"
  by (induction ys) (simp_all add: stream_frame_def complete_frame_def)

text \<open>
  Claim C1, as the code has it.  The upstream bytes are \<open>N\<close> lines that decode to
  records \<^verbatim>\<open>{response: x_i}\<close> followed by one line that decodes to
  \<^verbatim>\<open>{done: true}\<close>, every line, the last one included, ended by a line feed, and
  cut into reads in any way.  Then the relay of stream.js and finalserver.js
  forwards the fragments in order: it sends one stream frame for every fragment
  that is not the empty string (a record whose \<^verbatim>\<open>response\<close> is the empty string is
  falsy in \<^verbatim>\<open>if (json.response)\<close> and has nothing to add), so that the contents of
  the stream frames, put together, are \<open>x_1 @ ... @ x_N\<close>; and it sends exactly one
  completion frame, after them, whose content is \<open>x_1 @ ... @ x_N\<close>.
\<close>

theorem relay_transcript:
  assumes frag: "list_all2 (response_line parse) ls xs"
    and dl: "done_line parse dl"
    and bytes: "concat cs = wire (ls @ [dl])"
    and resp: "ok response" "body response = Some \<lparr>chunks = cs, failure = None\<rparr>"
  shows "relay_response parse (Resolved response) =
           map stream_frame (filter (\<lambda>x. x \<noteq> []) xs) @ [complete_frame (concat xs)] \<and>
         concat (map content (filter (\<lambda>f. etype f = ''stream'')
                   (relay_response parse (Resolved response)))) = concat xs \<and>
         filter (\<lambda>f. etype f = ''complete'') (relay_response parse (Resolved response))
           = [complete_frame (concat xs)]"
proof -
  have nl: "\<forall>l\<in>set (ls @ [dl]). newline \<notin> set l"
    using response_lines_no_break [OF frag] dl by (auto simp: done_line_def)
  have sp: "split_nl (concat cs) = (ls @ [dl]) @ [[]]"
    unfolding bytes by (rule split_nl_wire [OF nl])
  have cl: "complete_lines (concat cs) = ls @ [dl]"
    unfolding complete_lines_def sp by (simp add: butlast_append)
  have nb: "\<forall>l\<in>set (butlast (complete_lines (buffer decoder_init @ concat cs))). \<not> breaks_on parse l"
    using response_lines_no_break [OF frag] by (simp add: decoder_init_def cl)
  have "read_loop parse cs decoder_init =
        process_lines parse (ls @ [dl]) decoder_init"
    using read_loop_lines [OF _ nb] by (simp add: decoder_init_def cl sp)
  also have "\<dots> = process_lines parse [dl]
       \<lparr>buffer = [], fullResponse = [] @ concat xs,
        sent = [] @ map stream_frame (filter (\<lambda>x. x \<noteq> []) xs)\<rparr>"
    unfolding decoder_init_def by (rule process_fragments [OF frag])
  also have "\<dots> = \<lparr>buffer = [], fullResponse = concat xs,
        sent = map stream_frame (filter (\<lambda>x. x \<noteq> []) xs) @ [complete_frame (concat xs)]\<rparr>"
    using dl by (auto simp: done_line_def Let_def split: option.splits)
  finally have r: "relay_response parse (Resolved response) =
           map stream_frame (filter (\<lambda>x. x \<noteq> []) xs) @ [complete_frame (concat xs)]"
    using resp by (simp add: relay_response_def)
  show ?thesis
    unfolding r by (simp only: stream_frames_content complete_frames_only concat_nonempty)
qed

theorem relay_transcript_witness:
  \<open>list_all2 (response_line sample_parse)
       [''{"response":"Hello"}'', ''{"response":""}'', ''{"response":" world"}'']
       [''Hello'', [], '' world''] \<and>
   done_line sample_parse ''{"done":true}'' \<and>
   relay_response sample_parse
     (Resolved \<lparr>ok = True, status = 200, statusText = ''OK'',
        body = Some \<lparr>chunks = [''{"respon'', ''se":"Hello"}'' @ [newline] @ ''{"response":""}''
                               @ [newline] @ ''{"response":" world"}''
                               @ [newline] @ ''{"do'', ''ne":true}'' @ [newline]],
                     failure = None\<rparr>\<rparr>)
   = [stream_frame ''Hello'', stream_frame '' world'', complete_frame ''Hello world'']\<close>
proof -
  have h1: \<open>list_all2 (response_line sample_parse)
      [''{"response":"Hello"}'', ''{"response":""}'', ''{"response":" world"}'']
      [''Hello'', [], '' world'']\<close>
    by code_simp
  have h2: \<open>done_line sample_parse ''{"done":true}''\<close>
    by code_simp
  have h3: \<open>concat [''{"respon'', ''se":"Hello"}'' @ [newline] @ ''{"response":""}''
                               @ [newline] @ ''{"response":" world"}''
                               @ [newline] @ ''{"do'', ''ne":true}'' @ [newline]]
      = wire ([''{"response":"Hello"}'', ''{"response":""}'', ''{"response":" world"}'']
              @ [''{"done":true}''])\<close>
    by (simp add: wire_def)
  show ?thesis
    using relay_transcript [OF h1 h2 h3, of "\<lparr>ok = True, status = 200, statusText = ''OK'',
        body = Some \<lparr>chunks = [''{\"respon'', ''se\":\"Hello\"}'' @ [newline] @ ''{\"response\":\"\"}''
                               @ [newline] @ ''{\"response\":\" world\"}''
                               @ [newline] @ ''{\"do'', ''ne\":true}'' @ [newline]],
                     failure = None\<rparr>\<rparr>"] h1 h2
    by simp
qed

text \<open>
  Claim C1 as stated, which does not ask for the line feeds, fails when the bytes
  end right after the completion record: that record stays in the carry-over
  buffer, which is not looked at once the last read has reported the end of the
  body.  The fragment is forwarded, and no completion frame is sent.
\<close>

theorem relay_unterminated_done_counterexample:
  \<open>list_all2 (response_line sample_parse) [''{"response":"Hello"}''] [''Hello''] \<and>
   done_line sample_parse ''{"done":true}'' \<and>
   relay_response sample_parse
     (Resolved \<lparr>ok = True, status = 200, statusText = ''OK'',
        body = Some \<lparr>chunks = [''{"response":"Hello"}'' @ [newline] @ ''{"done":true}''],
                     failure = None\<rparr>\<rparr>)
     = [stream_frame ''Hello''] \<and>
   filter (\<lambda>f. etype f = ''complete'')
     (relay_response sample_parse
        (Resolved \<lparr>ok = True, status = 200, statusText = ''OK'',
           body = Some \<lparr>chunks = [''{"response":"Hello"}'' @ [newline] @ ''{"done":true}''],
                        failure = None\<rparr>\<rparr>)) = []\<close>
  by code_simp

section \<open>Independence of the partition into reads\<close>

text \<open>
  Where the carry-over buffer is kept (stream.js, finalserver.js) and no complete
  line before the last complete line carries the completion flag, two partitions
  of the same upstream bytes into reads leave the decoder in the same state (same
  frames sent, same transcript, same buffer): the loop body has run exactly once on
  every complete line of the byte string, in order, wherever the reads were cut.
\<close>

theorem carry_over_partition_independent:
  assumes "concat cs1 = concat cs2"
    and "\<forall>l\<in>set (butlast (complete_lines (concat cs1))). \<not> breaks_on parse l"
  shows "read_loop parse cs1 decoder_init = read_loop parse cs2 decoder_init \<and>
         read_loop parse cs1 decoder_init =
           process_lines parse (complete_lines (concat cs1))
             (decoder_init\<lparr>buffer := last (split_nl (concat cs1))\<rparr>)"
proof -
  have b: "newline \<notin> set (buffer decoder_init)"
    by (simp add: decoder_init_def)
  have e: "buffer decoder_init @ concat cs1 = concat cs1"
          "buffer decoder_init @ concat cs2 = concat cs1"
    using assms(1) by (simp_all add: decoder_init_def)
  have 1: "read_loop parse cs1 decoder_init =
           process_lines parse (complete_lines (concat cs1))
             (decoder_init\<lparr>buffer := last (split_nl (concat cs1))\<rparr>)"
    using read_loop_lines [OF b, of cs1 parse] assms(2) unfolding e by simp
  have 2: "read_loop parse cs2 decoder_init =
           process_lines parse (complete_lines (concat cs1))
             (decoder_init\<lparr>buffer := last (split_nl (concat cs1))\<rparr>)"
    using read_loop_lines [OF b, of cs2 parse] assms(2) unfolding e by simp
  show ?thesis using 1 2 by simp
qed

theorem carry_over_partition_independent_witness:
  \<open>concat [''{"resp'', ''onse":"x"}'' @ [newline]] = concat [''{"response":"x"}'' @ [newline]] \<and>
   butlast (complete_lines (concat [''{"resp'', ''onse":"x"}'' @ [newline]])) = [] \<and>
   read_loop sample_parse [''{"resp'', ''onse":"x"}'' @ [newline]] decoder_init
     = read_loop sample_parse [''{"response":"x"}'' @ [newline]] decoder_init \<and>
   sent (read_loop sample_parse [''{"resp'', ''onse":"x"}'' @ [newline]] decoder_init)
     = [stream_frame ''x'']\<close>
proof -
  have h1: \<open>concat [''{"resp'', ''onse":"x"}'' @ [newline]]
            = concat [''{"response":"x"}'' @ [newline]]\<close>
    by simp
  have h0: \<open>butlast (complete_lines (concat [''{"resp'', ''onse":"x"}'' @ [newline]])) = []\<close>
    by (simp add: complete_lines_def newline_def)
  have h2: \<open>\<forall>l\<in>set (butlast (complete_lines (concat [''{"resp'', ''onse":"x"}'' @ [newline]]))).
      \<not> breaks_on sample_parse l\<close>
    unfolding h0 by simp
  have e: \<open>sent (read_loop sample_parse [''{"resp'', ''onse":"x"}'' @ [newline]] decoder_init)
     = [stream_frame ''x'']\<close>
    by code_simp
  show ?thesis
    using carry_over_partition_independent [OF h1 h2] h1 h0 e by blast
qed

text \<open>
  Claim C2 at concrete streams.  The relay llm1.js splits every read on its own,
  with no carry-over buffer: the record cut into \<^verbatim>\<open>{"resp\<close> and \<^verbatim>\<open>onse":"x"}\<close>
  is dropped (only the greeting and the done message are sent), while the same bytes
  in one read are forwarded.  And in stream.js, which keeps the buffer, a record
  that follows a completion record is decoded when a read boundary separates the
  two, and passed over when both arrive in one read.
\<close>

theorem straddling_record_dropped:
  \<open>frames (run ''codellama'' own_keys sample_parse
       [Connection 0, Message 0 ''hi'',
        FetchResolved 0 \<lparr>ok = True, status = 200, statusText = ''OK'',
                          body = Some \<lparr>chunks = [], failure = None\<rparr>\<rparr>,
        ReadValue 0 ''{"resp'', ReadValue 0 (''onse":"x"}'' @ [newline]), ReadDone 0]
       world_init)
     = [(0, greeting_frame), (0, done_frame)] \<and>
   frames (run ''codellama'' own_keys sample_parse
       [Connection 0, Message 0 ''hi'',
        FetchResolved 0 \<lparr>ok = True, status = 200, statusText = ''OK'',
                          body = Some \<lparr>chunks = [], failure = None\<rparr>\<rparr>,
        ReadValue 0 (''{"response":"x"}'' @ [newline]), ReadDone 0]
       world_init)
     = [(0, greeting_frame), (0, ''x''), (0, done_frame)] \<and>
   sent (read_loop sample_parse
       [''{"done":true}'' @ [newline], ''{"response":"x"}'' @ [newline]] decoder_init)
     = [complete_frame [], stream_frame ''x''] \<and>
   sent (read_loop sample_parse
       [''{"done":true}'' @ [newline] @ ''{"response":"x"}'' @ [newline]] decoder_init)
     = [complete_frame []]\<close>
  by code_simp

section \<open>Malformed lines\<close>

lemma last_split_nl_boundary:
  "s = [] \<or> last s = newline \<Longrightarrow> last (split_nl s) = []"
proof (cases "s = []")
  case True
  then show ?thesis by simp
next
  case False
  assume "s = [] \<or> last s = newline"
  with False have "s = butlast s @ [newline]"
    by (metis append_butlast_last_id)
  then have "split_nl s = butlast (split_nl (butlast s)) @ split_nl (last (split_nl (butlast s)) @ [newline])"
    using split_nl_append [of "butlast s" "[newline]"] by simp
  also have "split_nl (last (split_nl (butlast s)) @ [newline]) = [last (split_nl (butlast s)), []]"
    using split_nl_line [OF last_split_nl_no_newline, of "butlast s" "[]"] by simp
  finally show ?thesis by simp
qed

lemma process_chunk_no_newline:
  assumes "newline \<notin> set (buffer d)" "newline \<notin> set c"
  shows "process_chunk parse c d = d\<lparr>buffer := buffer d @ c\<rparr>"
  using assms by (simp add: process_chunk_def split_nl_no_newline)

lemma read_loop_pieces:
  assumes "newline \<notin> set (buffer d)" "newline \<notin> set (concat bs)"
  shows "read_loop parse bs d = d\<lparr>buffer := buffer d @ concat bs\<rparr>"
  using assms
proof (induction bs arbitrary: d)
  case Nil
  then show ?case by simp
next
  case (Cons b bs)
  then show ?case by (simp add: process_chunk_no_newline)
qed

lemma process_chunk_boundary:
  assumes "last (split_nl (buffer d @ x)) = []"
  shows "split_nl (buffer d @ x @ z) = butlast (split_nl (buffer d @ x)) @ split_nl z"
  using split_nl_append [of "buffer d @ x" z] assms by simp

lemma skip_within_read:
  assumes bad: "parse bad = None" "newline \<notin> set bad"
    and bnd: "last (split_nl (buffer d @ x)) = []"
  shows "process_chunk parse (x @ bad @ [newline] @ y) d = process_chunk parse (x @ y) d"
proof -
  let ?P = "butlast (split_nl (buffer d @ x))"
  have 1: "split_nl (buffer d @ x @ bad @ [newline] @ y) = ?P @ bad # split_nl y"
    using process_chunk_boundary [OF bnd, of "bad @ [newline] @ y"] split_nl_line [OF bad(2), of y]
    by simp
  have 2: "split_nl (buffer d @ x @ y) = ?P @ split_nl y"
    by (rule process_chunk_boundary [OF bnd])
  have 3: "butlast (?P @ bad # split_nl y) = ?P @ bad # butlast (split_nl y)"
    by (simp add: butlast_append)
  have 4: "butlast (?P @ split_nl y) = ?P @ butlast (split_nl y)"
    by (simp add: butlast_append)
  show ?thesis
    unfolding process_chunk_def Let_def
    using 1 2 3 4 process_lines_skip [where parse = parse and bad = bad, OF bad(1)]
    by simp
qed

lemma skip_completed_line:
  assumes "parse (pre @ bk) = None" "newline \<notin> set (pre @ bk)"
  shows "process_chunk parse (bk @ [newline] @ y) (e\<lparr>buffer := pre\<rparr>)
         = process_chunk parse y (e\<lparr>buffer := []\<rparr>)"
proof -
  have s2: "split_nl (pre @ bk @ [newline] @ y) = (pre @ bk) # split_nl y"
    using split_nl_line [OF assms(2), of y] by simp
  show ?thesis
    using s2 process_lines_skip [where parse = parse and bad = "pre @ bk" and ?l1.0 = "[]",
        OF assms(1)]
    by (simp add: process_chunk_def Let_def)
qed

lemma skip_across_reads:
  assumes bad: "parse (b0 @ concat bs @ bk) = None" "newline \<notin> set (b0 @ concat bs @ bk)"
    and bnd: "last (split_nl (buffer d @ x)) = []"
  shows "read_loop parse ([x @ b0] @ bs @ [bk @ [newline] @ y]) d = read_loop parse [x, y] d"
proof -
  let ?P = "butlast (split_nl (buffer d @ x))"
  let ?dx = "process_chunk parse x d"
  have bx: "buffer ?dx = []"
    using bnd by (simp add: buffer_process_chunk)
  have "?dx\<lparr>buffer := buffer ?dx\<rparr> = ?dx"
    by simp
  then have dx0: "?dx\<lparr>buffer := []\<rparr> = ?dx"
    unfolding bx .
  have s0: "split_nl (buffer d @ x @ b0) = ?P @ [b0]"
    using process_chunk_boundary [OF bnd, of b0] bad(2) by (simp add: split_nl_no_newline)
  have d0: "process_chunk parse (x @ b0) d = ?dx\<lparr>buffer := b0\<rparr>"
    using s0 by (simp add: process_chunk_def Let_def process_lines_buffer_update)
  have d1: "read_loop parse bs (?dx\<lparr>buffer := b0\<rparr>) = ?dx\<lparr>buffer := b0 @ concat bs\<rparr>"
    using read_loop_pieces [of "?dx\<lparr>buffer := b0\<rparr>" bs parse] bad(2) by simp
  have d2: "process_chunk parse (bk @ [newline] @ y) (?dx\<lparr>buffer := b0 @ concat bs\<rparr>)
        = process_chunk parse y ?dx"
    using skip_completed_line [where parse = parse and pre = "b0 @ concat bs" and bk = bk
        and e = ?dx and y = y] bad dx0
    by simp
  show ?thesis
    using d0 d1 d2 by (simp add: read_loop_append)
qed

lemma boundary_after_reads:
  assumes "concat cs1 @ x = [] \<or> last (concat cs1 @ x) = newline"
  shows "last (split_nl (buffer (read_loop parse cs1 decoder_init) @ x)) = []"
proof -
  have "buffer (read_loop parse cs1 decoder_init) = last (split_nl (concat cs1))"
    using buffer_read_loop [of decoder_init parse cs1] by (simp add: decoder_init_def)
  then have "last (split_nl (buffer (read_loop parse cs1 decoder_init) @ x))
             = last (split_nl (concat cs1 @ x))"
    using split_nl_append [of "concat cs1" x] by simp
  then show ?thesis
    using last_split_nl_boundary [OF assms] by simp
qed

text \<open>
  Claim C8.  A line \<open>bad\<close> that fails to parse, starting at a line boundary of the
  stream, is passed over and the decode loop goes on: the decoder ends in the same
  state (same frames, same transcript, same buffer) as on the stream without that
  line.  This holds wherever the reads are cut: with the line inside one read
  (first part), and with the line spread over several reads, cut into \<open>b0\<close>, the
  pieces \<open>bs\<close> and \<open>bk\<close> (second part).
\<close>

theorem malformed_line_skipped:
  assumes "parse bad = None" and "newline \<notin> set bad"
    and "concat cs1 @ x = [] \<or> last (concat cs1 @ x) = newline"
  shows "read_loop parse (cs1 @ [x @ bad @ [newline] @ y] @ cs2) decoder_init
           = read_loop parse (cs1 @ [x @ y] @ cs2) decoder_init
         \<and> (\<forall>b0 bs bk. bad = b0 @ concat bs @ bk \<longrightarrow>
              read_loop parse (cs1 @ [x @ b0] @ bs @ [bk @ [newline] @ y] @ cs2) decoder_init
                = read_loop parse (cs1 @ [x, y] @ cs2) decoder_init)"
proof (intro conjI allI impI)
  let ?d = "read_loop parse cs1 decoder_init"
  have bnd: "last (split_nl (buffer ?d @ x)) = []"
    by (rule boundary_after_reads [OF assms(3)])
  show "read_loop parse (cs1 @ [x @ bad @ [newline] @ y] @ cs2) decoder_init
           = read_loop parse (cs1 @ [x @ y] @ cs2) decoder_init"
    using skip_within_read [where parse = parse and bad = bad, OF assms(1,2) bnd]
    by (simp add: read_loop_append)
  fix b0 bs bk
  assume eq: "bad = b0 @ concat bs @ bk"
  have "read_loop parse ([x @ b0] @ bs @ [bk @ [newline] @ y]) ?d = read_loop parse [x, y] ?d"
    using skip_across_reads [where parse = parse and ?b0.0 = b0 and bs = bs and bk = bk
        and d = ?d and x = x] bnd assms(1,2) eq by simp
  then have "read_loop parse (([x @ b0] @ bs @ [bk @ [newline] @ y]) @ cs2) ?d
             = read_loop parse ([x, y] @ cs2) ?d"
    unfolding read_loop_append [of parse _ cs2] by simp
  then show "read_loop parse (cs1 @ [x @ b0] @ bs @ [bk @ [newline] @ y] @ cs2) decoder_init
                = read_loop parse (cs1 @ [x, y] @ cs2) decoder_init"
    using read_loop_append [of parse cs1 "([x @ b0] @ bs @ [bk @ [newline] @ y]) @ cs2" decoder_init]
          read_loop_append [of parse cs1 "[x, y] @ cs2" decoder_init]
    by simp
qed


theorem malformed_line_skipped_witness:
  \<open>sample_parse ''not json'' = None \<and> newline \<notin> set ''not json'' \<and>
   last (concat [] @ (''{"response":"Hello"}'' @ [newline])) = newline \<and>
   read_loop sample_parse
     ([] @ [(''{"response":"Hello"}'' @ [newline]) @ ''not json'' @ [newline]
             @ (''{"response":" world"}'' @ [newline] @ ''{"done":true}'' @ [newline])] @ [])
     decoder_init
   = read_loop sample_parse
     ([] @ [(''{"response":"Hello"}'' @ [newline])
             @ (''{"response":" world"}'' @ [newline] @ ''{"done":true}'' @ [newline])] @ [])
     decoder_init \<and>
   read_loop sample_parse
     ([] @ [(''{"response":"Hello"}'' @ [newline]) @ ''not''] @ ['' js'']
         @ [''on'' @ [newline] @ (''{"response":" world"}'' @ [newline] @ ''{"done":true}'' @ [newline])]
         @ [])
     decoder_init
   = read_loop sample_parse
     ([] @ [''{"response":"Hello"}'' @ [newline],
            ''{"response":" world"}'' @ [newline] @ ''{"done":true}'' @ [newline]] @ [])
     decoder_init \<and>
   sent (read_loop sample_parse
     [(''{"response":"Hello"}'' @ [newline]) @ ''not'', '' js'',
      ''on'' @ [newline] @ (''{"response":" world"}'' @ [newline] @ ''{"done":true}'' @ [newline])]
     decoder_init)
   = [stream_frame ''Hello'', stream_frame '' world'', complete_frame ''Hello world'']\<close>
proof -
  have h1: \<open>sample_parse ''not json'' = None\<close>
    by code_simp
  have h2: \<open>newline \<notin> set ''not json''\<close>
    by (simp add: newline_def)
  have h3: \<open>last (concat [] @ (''{"response":"Hello"}'' @ [newline])) = newline\<close>
    by simp
  have h3': \<open>concat [] @ (''{"response":"Hello"}'' @ [newline]) = [] \<or>
             last (concat [] @ (''{"response":"Hello"}'' @ [newline])) = newline\<close>
    using h3 by blast
  have b: \<open>''not json'' = ''not'' @ concat ['' js''] @ ''on''\<close>
    by simp
  have e: \<open>sent (read_loop sample_parse
     [(''{"response":"Hello"}'' @ [newline]) @ ''not'', '' js'',
      ''on'' @ [newline] @ (''{"response":" world"}'' @ [newline] @ ''{"done":true}'' @ [newline])]
     decoder_init)
   = [stream_frame ''Hello'', stream_frame '' world'', complete_frame ''Hello world'']\<close>
    by code_simp
  show ?thesis
    using malformed_line_skipped [where parse = sample_parse and bad = \<open>''not json''\<close>
        and ?cs1.0 = "[]" and ?cs2.0 = "[]", OF h1 h2 h3'] b h1 h2 h3 e
    by blast
qed

section \<open>After a completion or error record\<close>

text \<open>
  Claim C5 at concrete streams: the \<^verbatim>\<open>break\<close> leaves the \<^verbatim>\<open>for\<close> loop only, and the
  \<^verbatim>\<open>while\<close> loop goes on reading.  In stream.js the records of the read after a
  completion record are decoded and forwarded, and a second completion frame is
  sent; the authenticated relay llm3.js does the same after a completion record
  and after an error record; and stream.js sends nothing at all for an error
  record.
\<close>

theorem reads_continue_after_break:
  \<open>sent (read_loop sample_parse
       [''{"response":"Hello"}'' @ [newline] @ ''{"done":true}'' @ [newline],
        ''{"response":" world"}'' @ [newline] @ ''{"done":true}'' @ [newline]] decoder_init)
     = [stream_frame ''Hello'', complete_frame ''Hello'',
        stream_frame '' world'', complete_frame ''Hello world''] \<and>
   g_sent (gated_read_loop sample_parse
       [(''{"response":"Hello"}'' @ [newline] @ ''{"done":true}'' @ [newline], True),
        (''{"response":" world"}'' @ [newline], True)] gated_decoder_init)
     = [''Hello'', complete_text, '' world''] \<and>
   g_sent (gated_read_loop sample_parse
       [(''{"error":"boom"}'' @ [newline], True),
        (''{"response":"x"}'' @ [newline], True)] gated_decoder_init)
     = [upstream_error_text ''boom'', ''x''] \<and>
   sent (read_loop sample_parse
       [''{"error":"boom"}'' @ [newline] @ ''{"response":"x"}'' @ [newline]] decoder_init)
     = [stream_frame ''x'']\<close>
  by code_simp

section \<open>Session validation never rejects\<close>

text \<open>
  Claim C4.  For every cookie header and every behaviour of the store,
  \<^verbatim>\<open>validateUserSession\<close> resolves (it never rejects), and it resolves to
  \<^verbatim>\<open>null\<close> in each failure case: no header, no match of the \<^verbatim>\<open>sessionId\<close> pattern,
  an identifier that cannot be decoded, a session lookup that fails or finds no row,
  a payload that does not parse, a payload without a (truthy) \<^verbatim>\<open>userId\<close>, a user
  lookup that fails or finds no row.  Only when every step succeeds does it resolve
  to the user row found.
\<close>

theorem validateUserSession_unauthenticated:
  "(\<exists>r. validateUserSession env cookieHeader = Inr r) \<and>
   validateUserSession env None = Inr None \<and>
   (sessionMatch header = None \<longrightarrow> validateUserSession env (Some header) = Inr None) \<and>
   (sessionMatch header = Some m \<and> clean_sessionId env m = Inl e \<longrightarrow>
      validateUserSession env (Some header) = Inr None) \<and>
   (sessionMatch header = Some m \<and> clean_sessionId env m = Inr sessionId \<longrightarrow>
      (sessions_query env sessionId = Inl e \<longrightarrow>
         validateUserSession env (Some header) = Inr None) \<and>
      (sessions_query env sessionId = Inr [] \<longrightarrow>
         validateUserSession env (Some header) = Inr None) \<and>
      (sessions_query env sessionId = Inr (row # rows) \<longrightarrow>
         (parse_session env row = Inl e \<longrightarrow>
            validateUserSession env (Some header) = Inr None) \<and>
         (parse_session env row = Inr sessionData \<longrightarrow>
            (userId sessionData = None \<or> userId sessionData = Some 0 \<longrightarrow>
               validateUserSession env (Some header) = Inr None) \<and>
            (userId sessionData = Some uid \<and> uid \<noteq> 0 \<longrightarrow>
               (users_query env uid = Inl e \<longrightarrow>
                  validateUserSession env (Some header) = Inr None) \<and>
               (users_query env uid = Inr [] \<longrightarrow>
                  validateUserSession env (Some header) = Inr None) \<and>
               (users_query env uid = Inr (u # us) \<longrightarrow>
                  validateUserSession env (Some header) = Inr (Some u))))))"
proof -
  have total: "\<exists>r. validateUserSession env cookieHeader = Inr r"
    by (cases "validate_try env cookieHeader") (simp_all add: validateUserSession_def)
  have empty: "sessionMatch [] = None"
    by simp
  show ?thesis
    using total empty
    by (auto simp: validateUserSession_def validate_try_def)
qed


theorem validateUserSession_unauthenticated_witness:
  \<open>validateUserSession sample_env None = Inr None \<and>
   sessionMatch ''foo=bar'' = None \<and>
   validateUserSession sample_env (Some ''foo=bar'') = Inr None \<and>
   sessionMatch ''sessionId=s:abc123.sig'' = Some ''s:abc123.sig'' \<and>
   clean_sessionId sample_env ''s:abc123.sig'' = Inr ''abc123'' \<and>
   sessions_query sample_env ''abc123'' = Inr [] \<and>
   validateUserSession sample_env (Some ''sessionId=s:abc123.sig'') = Inr None \<and>
   sessions_query sample_env ''down''
     = Inl \<lparr>err_name = ''Error'', err_message = ''connect ECONNREFUSED 127.0.0.1:3306''\<rparr> \<and>
   validateUserSession sample_env (Some ''theme=dark; sessionId=s:down.sig'') = Inr None \<and>
   clean_sessionId sample_env ''s%3A%E0''
     = Inl \<lparr>err_name = ''URIError'', err_message = ''URI malformed''\<rparr> \<and>
   validateUserSession sample_env (Some ''sessionId=s%3A%E0'') = Inr None \<and>
   parse_session sample_env ''not json''
     = Inl \<lparr>err_name = ''SyntaxError'', err_message = ''Unexpected token''\<rparr> \<and>
   validateUserSession sample_env (Some ''sessionId=s:broken.sig'') = Inr None \<and>
   parse_session sample_env ''{}'' = Inr \<lparr>userId = None\<rparr> \<and>
   validateUserSession sample_env (Some ''sessionId=s:anon.sig'') = Inr None \<and>
   users_query sample_env 9 = Inr [] \<and>
   validateUserSession sample_env (Some ''sessionId=s:orphan.sig'') = Inr None \<and>
   users_query sample_env 7 = Inr [\<lparr>u_id = 7, full_name = ''Ada''\<rparr>] \<and>
   validateUserSession sample_env (Some ''sessionId=s%3Agood.sig; theme=dark'')
     = Inr (Some \<lparr>u_id = 7, full_name = ''Ada''\<rparr>)\<close>
proof -
  have m1: \<open>sessionMatch ''foo=bar'' = None\<close> by code_simp
  have m2: \<open>sessionMatch ''sessionId=s:abc123.sig'' = Some ''s:abc123.sig''\<close> by code_simp
  have c2: \<open>clean_sessionId sample_env ''s:abc123.sig'' = Inr ''abc123''\<close> by code_simp
  have q2: \<open>sessions_query sample_env ''abc123'' = Inr []\<close> by code_simp
  have m3: \<open>sessionMatch ''theme=dark; sessionId=s:down.sig'' = Some ''s:down.sig''\<close> by code_simp
  have c3: \<open>clean_sessionId sample_env ''s:down.sig'' = Inr ''down''\<close> by code_simp
  have q3: \<open>sessions_query sample_env ''down''
     = Inl \<lparr>err_name = ''Error'', err_message = ''connect ECONNREFUSED 127.0.0.1:3306''\<rparr>\<close>
    by code_simp
  have m4: \<open>sessionMatch ''sessionId=s%3A%E0'' = Some ''s%3A%E0''\<close> by code_simp
  have c4: \<open>clean_sessionId sample_env ''s%3A%E0''
     = Inl \<lparr>err_name = ''URIError'', err_message = ''URI malformed''\<rparr>\<close> by code_simp
  have m5: \<open>sessionMatch ''sessionId=s:broken.sig'' = Some ''s:broken.sig''\<close> by code_simp
  have c5: \<open>clean_sessionId sample_env ''s:broken.sig'' = Inr ''broken''\<close> by code_simp
  have q5: \<open>sessions_query sample_env ''broken'' = Inr [''not json'']\<close> by code_simp
  have p5: \<open>parse_session sample_env ''not json''
     = Inl \<lparr>err_name = ''SyntaxError'', err_message = ''Unexpected token''\<rparr>\<close> by code_simp
  have m6: \<open>sessionMatch ''sessionId=s:anon.sig'' = Some ''s:anon.sig''\<close> by code_simp
  have c6: \<open>clean_sessionId sample_env ''s:anon.sig'' = Inr ''anon''\<close> by code_simp
  have q6: \<open>sessions_query sample_env ''anon'' = Inr [''{}'']\<close> by code_simp
  have p6: \<open>parse_session sample_env ''{}'' = Inr \<lparr>userId = None\<rparr>\<close> by code_simp
  have m7: \<open>sessionMatch ''sessionId=s:orphan.sig'' = Some ''s:orphan.sig''\<close> by code_simp
  have c7: \<open>clean_sessionId sample_env ''s:orphan.sig'' = Inr ''orphan''\<close> by code_simp
  have q7: \<open>sessions_query sample_env ''orphan'' = Inr [''{"userId":9}'']\<close> by code_simp
  have p7: \<open>parse_session sample_env ''{"userId":9}'' = Inr \<lparr>userId = Some 9\<rparr>\<close> by code_simp
  have u7: \<open>users_query sample_env 9 = Inr []\<close> by code_simp
  have m8: \<open>sessionMatch ''sessionId=s%3Agood.sig; theme=dark'' = Some ''s%3Agood.sig''\<close>
    by code_simp
  have c8: \<open>clean_sessionId sample_env ''s%3Agood.sig'' = Inr ''good''\<close> by code_simp
  have q8: \<open>sessions_query sample_env ''good'' = Inr [''{"userId":7}'']\<close> by code_simp
  have p8: \<open>parse_session sample_env ''{"userId":7}'' = Inr \<lparr>userId = Some 7\<rparr>\<close> by code_simp
  have u8: \<open>users_query sample_env 7 = Inr [\<lparr>u_id = 7, full_name = ''Ada''\<rparr>]\<close> by code_simp
  note T = validateUserSession_unauthenticated [where env = sample_env]
  have r0: \<open>validateUserSession sample_env None = Inr None\<close>
    using T by blast
  have r1: \<open>validateUserSession sample_env (Some ''foo=bar'') = Inr None\<close>
    using T [where header = \<open>''foo=bar''\<close>] m1 by blast
  have r2: \<open>validateUserSession sample_env (Some ''sessionId=s:abc123.sig'') = Inr None\<close>
    using T [where header = \<open>''sessionId=s:abc123.sig''\<close> and m = \<open>''s:abc123.sig''\<close>
        and sessionId = \<open>''abc123''\<close>] m2 c2 q2 by blast
  have r3: \<open>validateUserSession sample_env (Some ''theme=dark; sessionId=s:down.sig'') = Inr None\<close>
    using T [where header = \<open>''theme=dark; sessionId=s:down.sig''\<close> and m = \<open>''s:down.sig''\<close>
        and sessionId = \<open>''down''\<close>] m3 c3 q3 by blast
  have r4: \<open>validateUserSession sample_env (Some ''sessionId=s%3A%E0'') = Inr None\<close>
    using T [where header = \<open>''sessionId=s%3A%E0''\<close> and m = \<open>''s%3A%E0''\<close>] m4 c4 by blast
  have r5: \<open>validateUserSession sample_env (Some ''sessionId=s:broken.sig'') = Inr None\<close>
    using T [where header = \<open>''sessionId=s:broken.sig''\<close> and m = \<open>''s:broken.sig''\<close>
        and sessionId = \<open>''broken''\<close> and row = \<open>''not json''\<close> and rows = "[]"] m5 c5 q5 p5
    by blast
  have r6: \<open>validateUserSession sample_env (Some ''sessionId=s:anon.sig'') = Inr None\<close>
    using T [where header = \<open>''sessionId=s:anon.sig''\<close> and m = \<open>''s:anon.sig''\<close>
        and sessionId = \<open>''anon''\<close> and row = \<open>''{}''\<close> and rows = "[]"
        and sessionData = "\<lparr>userId = None\<rparr>"] m6 c6 q6 p6
    by simp
  have r7: \<open>validateUserSession sample_env (Some ''sessionId=s:orphan.sig'') = Inr None\<close>
    using T [where header = \<open>''sessionId=s:orphan.sig''\<close> and m = \<open>''s:orphan.sig''\<close>
        and sessionId = \<open>''orphan''\<close> and row = \<open>''{"userId":9}''\<close> and rows = "[]"
        and sessionData = "\<lparr>userId = Some 9\<rparr>" and uid = 9] m7 c7 q7 p7 u7
    by simp
  have r8: \<open>validateUserSession sample_env (Some ''sessionId=s%3Agood.sig; theme=dark'')
     = Inr (Some \<lparr>u_id = 7, full_name = ''Ada''\<rparr>)\<close>
    using T [where header = \<open>''sessionId=s%3Agood.sig; theme=dark''\<close> and m = \<open>''s%3Agood.sig''\<close>
        and sessionId = \<open>''good''\<close> and row = \<open>''{"userId":7}''\<close> and rows = "[]"
        and sessionData = "\<lparr>userId = Some 7\<rparr>" and uid = 7
        and u = \<open>\<lparr>u_id = 7, full_name = ''Ada''\<rparr>\<close> and us = "[]"] m8 c8 q8 p8 u8
    by simp
  show ?thesis
    using r0 r1 r2 r3 r4 r5 r6 r7 r8 m1 m2 c2 q2 q3 c4 p5 p6 u7 u8 by blast
qed

section \<open>The close code of the authenticated relay\<close>

text \<open>
  Claim C7 on the code: whatever the store does, the handshake of the authenticated
  relay never closes the socket with code 1011, because \<^verbatim>\<open>validateUserSession\<close>
  turns every error into \<^verbatim>\<open>null\<close> before the handshake's own \<^verbatim>\<open>catch\<close> can see it.
  With the store unreachable the client is told to log in and the socket is closed
  with 1008, as for a missing session.
\<close>

theorem gated_handshake_never_1011:
  \<open>snd (gated_handshake env is_open req) \<noteq> Closed 1011 reason \<and>
   sessions_query sample_env ''down''
     = Inl \<lparr>err_name = ''Error'', err_message = ''connect ECONNREFUSED 127.0.0.1:3306''\<rparr> \<and>
   gated_handshake sample_env True \<lparr>cookie = Some ''sessionId=s:down.sig'', origin = None\<rparr>
     = ([login_frame], Closed 1008 ''Authentication required'')\<close>
proof -
  have "\<exists>r. gated_validateUserSession env (cookie req) = Inr r"
    by (cases "gated_validate_try env (cookie req)") (simp_all add: gated_validateUserSession_def)
  then have 1: "snd (gated_handshake env is_open req) \<noteq> Closed 1011 reason"
    by (auto simp: gated_handshake_def split: option.splits)
  have 2: \<open>sessions_query sample_env ''down''
     = Inl \<lparr>err_name = ''Error'', err_message = ''connect ECONNREFUSED 127.0.0.1:3306''\<rparr>\<close>
    by code_simp
  have 3: \<open>gated_handshake sample_env True \<lparr>cookie = Some ''sessionId=s:down.sig'', origin = None\<rparr>
     = ([login_frame], Closed 1008 ''Authentication required'')\<close>
    by code_simp
  show ?thesis using 1 2 3 by blast
qed

section \<open>The topic filter\<close>

lemma startsWith_iff: "startsWith s k \<longleftrightarrow> (\<exists>b. s = k @ b)"
proof
  assume "startsWith s k"
  then have "s = k @ drop (length k) s"
    unfolding startsWith_def by (metis append_take_drop_id)
  then show "\<exists>b. s = k @ b" ..
next
  assume "\<exists>b. s = k @ b"
  then show "startsWith s k"
    by (auto simp: startsWith_def)
qed

lemma str_includes_iff: "str_includes s k \<longleftrightarrow> (\<exists>a b. s = a @ k @ b)"
proof (induction s)
  case Nil
  then show ?case by auto
next
  case (Cons c cs)
  show ?case
  proof
    assume "str_includes (c # cs) k"
    then consider "startsWith (c # cs) k" | "str_includes cs k" by auto
    then show "\<exists>a b. c # cs = a @ k @ b"
    proof cases
      case 1
      then obtain b where "c # cs = k @ b" by (auto simp: startsWith_iff)
      then have "c # cs = [] @ k @ b" by simp
      then show ?thesis by blast
    next
      case 2
      with Cons.IH obtain a b where "cs = a @ k @ b" by blast
      then have "c # cs = (c # a) @ k @ b" by simp
      then show ?thesis by blast
    qed
  next
    assume "\<exists>a b. c # cs = a @ k @ b"
    then obtain a b where ab: "c # cs = a @ k @ b" by blast
    show "str_includes (c # cs) k"
    proof (cases a)
      case Nil
      with ab have "startsWith (c # cs) k" by (auto simp: startsWith_iff)
      then show ?thesis by simp
    next
      case (Cons x a')
      with ab have "cs = a' @ k @ b" by simp
      with Cons.IH have "str_includes cs k" by blast
      then show ?thesis by simp
    qed
  qed
qed

lemma isCodeRelated_iff:
  "isCodeRelated toLowerCase prompt \<longleftrightarrow>
   (\<exists>keyword\<in>set CODING_KEYWORDS. \<exists>a b. toLowerCase prompt = a @ keyword @ b)"
  by (simp add: isCodeRelated_def Let_def list_ex_iff str_includes_iff)

lemma in_trimStart:
  assumes "\<not> white1 x" "\<And>a. \<not> white2 x a" "\<And>a. \<not> white2 a x"
    and "\<And>a b. \<not> white3 x a b" "\<And>a b. \<not> white3 a x b" "\<And>a b. \<not> white3 a b x"
  shows "x \<in> set s \<Longrightarrow> x \<in> set (trimStart s)"
proof (induction s rule: trimStart.induct)
  case (1 a b c s)
  then show ?case using assms by (auto split: if_splits)
next
  case (2 a b)
  then show ?case using assms by (auto split: if_splits)
next
  case (3 a)
  then show ?case using assms by (auto split: if_splits)
next
  case 4
  then show ?case by simp
qed

lemma in_trimEnd_rev:
  assumes "\<not> white1 x" "\<And>a. \<not> white2 x a" "\<And>a. \<not> white2 a x"
    and "\<And>a b. \<not> white3 x a b" "\<And>a b. \<not> white3 a x b" "\<And>a b. \<not> white3 a b x"
  shows "x \<in> set s \<Longrightarrow> x \<in> set (trimEnd_rev s)"
proof (induction s rule: trimEnd_rev.induct)
  case (1 c b a s)
  then show ?case using assms by (auto split: if_splits)
next
  case (2 c b)
  then show ?case using assms by (auto split: if_splits)
next
  case (3 c)
  then show ?case using assms by (auto split: if_splits)
next
  case 4
  then show ?case by simp
qed

lemma in_trim:
  assumes "\<not> white1 x" "\<And>a. \<not> white2 x a" "\<And>a. \<not> white2 a x"
    and "\<And>a b. \<not> white3 x a b" "\<And>a b. \<not> white3 a x b" "\<And>a b. \<not> white3 a b x"
    and "x \<in> set s"
  shows "x \<in> set (trim s)"
proof -
  have "x \<in> set (rev (trimStart s))"
    using in_trimStart [OF assms] by simp
  then have "x \<in> set (trimEnd_rev (rev (trimStart s)))"
    by (rule in_trimEnd_rev [OF assms(1-6)])
  then show ?thesis by (simp add: trim_def)
qed

lemma r_in_trim: "CHR ''r'' \<in> set s \<Longrightarrow> CHR ''r'' \<in> set (trim s)"
  by (rule in_trim) (simp_all add: white1_def white2_def white3_def)

lemma R_in_trim: "CHR ''R'' \<in> set s \<Longrightarrow> CHR ''R'' \<in> set (trim s)"
  by (rule in_trim) (simp_all add: white1_def white2_def white3_def)

lemma r_keyword: "''r'' \<in> set CODING_KEYWORDS"
  by (simp add: CODING_KEYWORDS_def)

lemma r_passes: "CHR ''r'' \<in> set (toLowerCase prompt) \<Longrightarrow> isCodeRelated toLowerCase prompt"
proof -
  assume "CHR ''r'' \<in> set (toLowerCase prompt)"
  then obtain a b where "toLowerCase prompt = a @ ''r'' @ b"
    by (auto simp: in_set_conv_decomp)
  then show ?thesis
    unfolding isCodeRelated_iff using r_keyword by blast
qed

lemma ascii_lower_r: "CHR ''r'' \<in> set s \<Longrightarrow> CHR ''r'' \<in> set (ascii_lower s)"
  by (induction s) (auto simp: ascii_lower_def)

lemma ascii_lower_R:
  assumes "CHR ''R'' \<in> set s"
  shows "CHR ''r'' \<in> set (ascii_lower s)"
proof -
  let ?f = "\<lambda>c. if 65 \<le> (of_char c :: nat) \<and> (of_char c :: nat) \<le> 90
                then char_of ((of_char c :: nat) + 32) else c"
  have "?f CHR ''R'' = CHR ''r''" by code_simp
  moreover have "?f CHR ''R'' \<in> ?f ` set s" using assms by (rule imageI)
  ultimately show ?thesis
    unfolding ascii_lower_def set_map by simp
qed

text \<open>
  Claim C9.  In finalserver.js a message starts an upstream call exactly when the
  trimmed prompt, lower-cased by \<^verbatim>\<open>toLowerCase\<close>, contains one of
  \<open>CODING_KEYWORDS\<close> as a substring.  A prompt that contains none is answered by
  the single completion frame with the polite message (marked \<^verbatim>\<open>filtered\<close>) and no
  call is made; a prompt that contains one is sent upstream, trimmed but in its own
  case, behind the system prompt.  Since \<^verbatim>\<open>r\<close> is a keyword, every message that
  contains the letter \<^verbatim>\<open>r\<close> passes, \<^verbatim>\<open>toLowerCase\<close> leaving that letter in place;
  and so does every message that contains \<^verbatim>\<open>R\<close>, which \<^verbatim>\<open>toLowerCase\<close> turns
  into \<^verbatim>\<open>r\<close>.
\<close>

theorem topic_filter_gate:
  "(fst (finalserver_on_message MODEL_NAME toLowerCase parse upstream input) \<noteq> None \<longleftrightarrow>
      (\<exists>keyword\<in>set CODING_KEYWORDS. \<exists>a b. toLowerCase (trim input) = a @ keyword @ b)) \<and>
   (\<not> isCodeRelated toLowerCase (trim input) \<longrightarrow>
      finalserver_on_message MODEL_NAME toLowerCase parse upstream input =
        (None, [\<lparr>etype = ''complete'', content = POLITE_FILTER_MESSAGE, filtered = True\<rparr>])) \<and>
   (isCodeRelated toLowerCase (trim input) \<longrightarrow>
      fst (finalserver_on_message MODEL_NAME toLowerCase parse upstream input) =
        Some \<lparr>g_model = MODEL_NAME,
              g_prompt = systemPrompt @ [newline, newline] @ ''User: '' @ trim input,
              g_system = None\<rparr>) \<and>
   ((\<forall>s. CHR ''r'' \<in> set s \<longrightarrow> CHR ''r'' \<in> set (toLowerCase s)) \<and> CHR ''r'' \<in> set input \<longrightarrow>
      fst (finalserver_on_message MODEL_NAME toLowerCase parse upstream input) \<noteq> None) \<and>
   ((\<forall>s. CHR ''R'' \<in> set s \<longrightarrow> CHR ''r'' \<in> set (toLowerCase s)) \<and> CHR ''R'' \<in> set input \<longrightarrow>
      fst (finalserver_on_message MODEL_NAME toLowerCase parse upstream input) \<noteq> None)"
proof -
  have g: "fst (finalserver_on_message MODEL_NAME toLowerCase parse upstream input) \<noteq> None
           \<longleftrightarrow> isCodeRelated toLowerCase (trim input)"
    by (simp add: finalserver_on_message_def Let_def)
  have 1: "fst (finalserver_on_message MODEL_NAME toLowerCase parse upstream input) \<noteq> None \<longleftrightarrow>
      (\<exists>keyword\<in>set CODING_KEYWORDS. \<exists>a b. toLowerCase (trim input) = a @ keyword @ b)"
    unfolding g by (rule isCodeRelated_iff)
  have 2: "\<not> isCodeRelated toLowerCase (trim input) \<longrightarrow>
      finalserver_on_message MODEL_NAME toLowerCase parse upstream input =
        (None, [\<lparr>etype = ''complete'', content = POLITE_FILTER_MESSAGE, filtered = True\<rparr>])"
    by (simp add: finalserver_on_message_def Let_def)
  have 3: "isCodeRelated toLowerCase (trim input) \<longrightarrow>
      fst (finalserver_on_message MODEL_NAME toLowerCase parse upstream input) =
        Some \<lparr>g_model = MODEL_NAME,
              g_prompt = systemPrompt @ [newline, newline] @ ''User: '' @ trim input,
              g_system = None\<rparr>"
    by (simp add: finalserver_on_message_def Let_def)
  have 4: "(\<forall>s. CHR ''r'' \<in> set s \<longrightarrow> CHR ''r'' \<in> set (toLowerCase s)) \<and> CHR ''r'' \<in> set input \<longrightarrow>
      fst (finalserver_on_message MODEL_NAME toLowerCase parse upstream input) \<noteq> None"
    unfolding g using r_in_trim r_passes by blast
  have 5: "(\<forall>s. CHR ''R'' \<in> set s \<longrightarrow> CHR ''r'' \<in> set (toLowerCase s)) \<and> CHR ''R'' \<in> set input \<longrightarrow>
      fst (finalserver_on_message MODEL_NAME toLowerCase parse upstream input) \<noteq> None"
    unfolding g using R_in_trim r_passes by blast
  show ?thesis
    using 1 2 3 4 5 by blast
qed

theorem topic_filter_gate_witness:
  \<open>\<not> isCodeRelated ascii_lower (trim ''tell me a joke'') \<and>
   finalserver_on_message ''codellama:latest'' ascii_lower sample_parse
       (\<lambda>request. Rejected \<lparr>err_name = ''TypeError'', err_message = ''fetch failed''\<rparr>)
       ''tell me a joke''
     = (None, [\<lparr>etype = ''complete'', content = POLITE_FILTER_MESSAGE, filtered = True\<rparr>]) \<and>
   ascii_lower (trim ([CHR 0xC2, CHR 0xA0] @ ''CODE '')) = [] @ ''code'' @ [] \<and>
   ''code'' \<in> set CODING_KEYWORDS \<and>
   isCodeRelated ascii_lower (trim ([CHR 0xC2, CHR 0xA0] @ ''CODE '')) \<and>
   fst (finalserver_on_message ''codellama:latest'' ascii_lower sample_parse
       (\<lambda>request. Rejected \<lparr>err_name = ''TypeError'', err_message = ''fetch failed''\<rparr>)
       ([CHR 0xC2, CHR 0xA0] @ ''CODE ''))
     = Some \<lparr>g_model = ''codellama:latest'',
             g_prompt = systemPrompt @ [newline, newline] @ ''User: '' @ ''CODE'',
             g_system = None\<rparr> \<and>
   CHR ''r'' \<in> set ''what is your name'' \<and>
   fst (finalserver_on_message ''codellama:latest'' ascii_lower sample_parse
       (\<lambda>request. Rejected \<lparr>err_name = ''TypeError'', err_message = ''fetch failed''\<rparr>)
       ''what is your name'') \<noteq> None \<and>
   CHR ''R'' \<in> set ''WHO ARE YOU?'' \<and>
   fst (finalserver_on_message ''codellama:latest'' ascii_lower sample_parse
       (\<lambda>request. Rejected \<lparr>err_name = ''TypeError'', err_message = ''fetch failed''\<rparr>)
       ''WHO ARE YOU?'') \<noteq> None\<close>
proof -
  have h1: \<open>\<not> isCodeRelated ascii_lower (trim ''tell me a joke'')\<close>
    by code_simp
  have t: \<open>trim ([CHR 0xC2, CHR 0xA0] @ ''CODE '') = ''CODE''\<close>
    by code_simp
  have l: \<open>ascii_lower (trim ([CHR 0xC2, CHR 0xA0] @ ''CODE '')) = [] @ ''code'' @ []\<close>
    by code_simp
  have k: \<open>''code'' \<in> set CODING_KEYWORDS\<close>
    by (simp add: CODING_KEYWORDS_def)
  have lr: \<open>\<forall>s. CHR ''r'' \<in> set s \<longrightarrow> CHR ''r'' \<in> set (ascii_lower s)\<close>
    using ascii_lower_r by blast
  have lR: \<open>\<forall>s. CHR ''R'' \<in> set s \<longrightarrow> CHR ''r'' \<in> set (ascii_lower s)\<close>
    using ascii_lower_R by blast
  have h2: \<open>CHR ''r'' \<in> set ''what is your name''\<close>
    by simp
  have h3: \<open>CHR ''R'' \<in> set ''WHO ARE YOU?''\<close>
    by simp
  note up = topic_filter_gate [where MODEL_NAME = \<open>''codellama:latest''\<close>
      and toLowerCase = ascii_lower and parse = sample_parse
      and upstream = \<open>\<lambda>request. Rejected \<lparr>err_name = ''TypeError'', err_message = ''fetch failed''\<rparr>\<close>]
  have r1: \<open>finalserver_on_message ''codellama:latest'' ascii_lower sample_parse
       (\<lambda>request. Rejected \<lparr>err_name = ''TypeError'', err_message = ''fetch failed''\<rparr>)
       ''tell me a joke''
     = (None, [\<lparr>etype = ''complete'', content = POLITE_FILTER_MESSAGE, filtered = True\<rparr>])\<close>
    using up [where input = \<open>''tell me a joke''\<close>] h1 by blast
  have c1: \<open>fst (finalserver_on_message ''codellama:latest'' ascii_lower sample_parse
       (\<lambda>request. Rejected \<lparr>err_name = ''TypeError'', err_message = ''fetch failed''\<rparr>)
       ([CHR 0xC2, CHR 0xA0] @ ''CODE '')) \<noteq> None\<close>
    using up [where input = \<open>[CHR 0xC2, CHR 0xA0] @ ''CODE ''\<close>] l k by blast
  have c2: \<open>isCodeRelated ascii_lower (trim ([CHR 0xC2, CHR 0xA0] @ ''CODE ''))\<close>
    using c1 by (simp add: finalserver_on_message_def Let_def split: if_splits)
  have r2: \<open>fst (finalserver_on_message ''codellama:latest'' ascii_lower sample_parse
       (\<lambda>request. Rejected \<lparr>err_name = ''TypeError'', err_message = ''fetch failed''\<rparr>)
       ([CHR 0xC2, CHR 0xA0] @ ''CODE ''))
     = Some \<lparr>g_model = ''codellama:latest'',
             g_prompt = systemPrompt @ [newline, newline] @ ''User: '' @ ''CODE'',
             g_system = None\<rparr>\<close>
    using up [where input = \<open>[CHR 0xC2, CHR 0xA0] @ ''CODE ''\<close>] c2 unfolding t by blast
  have r3: \<open>fst (finalserver_on_message ''codellama:latest'' ascii_lower sample_parse
       (\<lambda>request. Rejected \<lparr>err_name = ''TypeError'', err_message = ''fetch failed''\<rparr>)
       ''what is your name'') \<noteq> None\<close>
    using up [where input = \<open>''what is your name''\<close>] lr h2 by blast
  have r4: \<open>fst (finalserver_on_message ''codellama:latest'' ascii_lower sample_parse
       (\<lambda>request. Rejected \<lparr>err_name = ''TypeError'', err_message = ''fetch failed''\<rparr>)
       ''WHO ARE YOU?'') \<noteq> None\<close>
    using up [where input = \<open>''WHO ARE YOU?''\<close>] lR h3 by blast
  show ?thesis
    using h1 r1 l k c2 r2 h2 r3 h3 r4 by blast
qed

section \<open>No authentication in stream.js\<close>

text \<open>
  Claim C10.  The message handler of stream.js answers a prompt in the same way
  (same upstream request, same frames) whatever Cookie header the handshake request
  carried, none included, and whatever the session store holds: neither is read.
\<close>

theorem stream_relay_ignores_session:
  "stream_on_message MODEL_NAME parse upstream env1 (req\<lparr>cookie := c1\<rparr>) input
     = stream_on_message MODEL_NAME parse upstream env2 (req\<lparr>cookie := c2\<rparr>) input"
  by (simp add: stream_on_message_def)

section \<open>The relay llm1.js: what each handler changes\<close>

lemma send_frame_sel [simp]:
  "activeConnections (send_frame s x w) = activeConnections w"
  "socket_open (send_frame s x w) = socket_open w"
  "flights (send_frame s x w) = flights w"
  "next_handle (send_frame s x w) = next_handle w"
  "fetches (send_frame s x w) = fetches w"
  "aborted (send_frame s x w) = aborted w"
  "frames (send_frame s x w) = frames w @ [(s, x)]"
  by (simp_all add: send_frame_def)

lemma on_connection_sel [simp]:
  "socket_open (on_connection k s w) = socket_open w"
  "flights (on_connection k s w) = flights w"
  "next_handle (on_connection k s w) = next_handle w"
  "fetches (on_connection k s w) = fetches w"
  "aborted (on_connection k s w) = aborted w"
  "frames (on_connection k s w) = frames w"
  "activeConnections (on_connection k s w) k' =
     (if k' = k then Some \<lparr>socket = s, isProcessing = False, abortController = None\<rparr>
      else activeConnections w k')"
  by (simp_all add: on_connection_def)

lemma catch_block_sel [simp]:
  "activeConnections (catch_block s err w) = activeConnections w"
  "socket_open (catch_block s err w) = socket_open w"
  "flights (catch_block s err w) = flights w"
  "next_handle (catch_block s err w) = next_handle w"
  "fetches (catch_block s err w) = fetches w"
  "aborted (catch_block s err w) = aborted w"
  by (simp_all add: catch_block_def)

lemma catch_block_frames:
  "frames (catch_block s err w) =
     frames w @ (if socket_open w s \<and> err_name err \<noteq> ''AbortError''
                 then [(s, error_text (err_message err))] else [])"
  by (simp add: catch_block_def)

lemma finally_block_sel [simp]:
  "socket_open (finally_block k w) = socket_open w"
  "flights (finally_block k w) = flights w"
  "next_handle (finally_block k w) = next_handle w"
  "fetches (finally_block k w) = fetches w"
  "aborted (finally_block k w) = aborted w"
  "frames (finally_block k w) = frames w"
  by (simp_all add: finally_block_def split: option.splits)

lemma finally_block_entry:
  "activeConnections (finally_block k w) k' =
     (if k' = k
      then map_option (\<lambda>c. c\<lparr>isProcessing := False, abortController := None\<rparr>)
             (activeConnections w k)
      else activeConnections w k')"
  by (simp add: finally_block_def split: option.splits)

lemma settle_sel [simp]:
  "activeConnections (settle h w) = activeConnections w"
  "socket_open (settle h w) = socket_open w"
  "flights (settle h w) = filter (\<lambda>f. fst f \<noteq> h) (flights w)"
  "next_handle (settle h w) = next_handle w"
  "fetches (settle h w) = fetches w"
  "aborted (settle h w) = aborted w"
  "frames (settle h w) = frames w"
  by (simp_all add: settle_def)

lemma throw_in_try_sel [simp]:
  "socket_open (throw_in_try k s h err w) = socket_open w"
  "flights (throw_in_try k s h err w) = filter (\<lambda>f. fst f \<noteq> h) (flights w)"
  "next_handle (throw_in_try k s h err w) = next_handle w"
  "fetches (throw_in_try k s h err w) = fetches w"
  "aborted (throw_in_try k s h err w) = aborted w"
  "frames (throw_in_try k s h err w) = frames (catch_block s err w)"
  "activeConnections (throw_in_try k s h err w) k' =
     (if k' = k
      then map_option (\<lambda>c. c\<lparr>isProcessing := False, abortController := None\<rparr>)
             (activeConnections w k)
      else activeConnections w k')"
  by (simp_all add: throw_in_try_def finally_block_entry)

lemma after_loop_sel [simp]:
  "socket_open (after_loop k s h w) = socket_open w"
  "flights (after_loop k s h w) = filter (\<lambda>f. fst f \<noteq> h) (flights w)"
  "next_handle (after_loop k s h w) = next_handle w"
  "fetches (after_loop k s h w) = fetches w"
  "aborted (after_loop k s h w) = aborted w"
  "frames (after_loop k s h w) = frames w @ (if socket_open w s then [(s, done_frame)] else [])"
  "activeConnections (after_loop k s h w) k' =
     (if k' = k
      then map_option (\<lambda>c. c\<lparr>isProcessing := False, abortController := None\<rparr>)
             (activeConnections w k)
      else activeConnections w k')"
  by (simp_all add: after_loop_def finally_block_entry)

lemma loop_head_sel [simp]:
  "socket_open (loop_head k s h w) = socket_open w"
  "next_handle (loop_head k s h w) = next_handle w"
  "fetches (loop_head k s h w) = fetches w"
  "aborted (loop_head k s h w) = aborted w"
  "frames (loop_head k s h w) = frames w"
  by (simp_all add: loop_head_def)

lemma loop_head_flights:
  "flights (loop_head k s h w) =
     (if socket_open w s
      then map (\<lambda>f. if fst f = h then (h, s, AwaitRead) else f) (flights w)
      else filter (\<lambda>f. fst f \<noteq> h) (flights w))"
  by (simp add: loop_head_def)

lemma loop_head_entry:
  "activeConnections (loop_head k s h w) k' =
     (if socket_open w s \<or> k' \<noteq> k then activeConnections w k'
      else map_option (\<lambda>c. c\<lparr>isProcessing := False, abortController := None\<rparr>)
             (activeConnections w k))"
  by (simp add: loop_head_def)

lemma on_chunk_sel [simp]:
  "activeConnections (on_chunk parse s chunk w) = activeConnections w"
  "socket_open (on_chunk parse s chunk w) = socket_open w"
  "flights (on_chunk parse s chunk w) = flights w"
  "next_handle (on_chunk parse s chunk w) = next_handle w"
  "fetches (on_chunk parse s chunk w) = fetches w"
  "aborted (on_chunk parse s chunk w) = aborted w"
  by (simp_all add: on_chunk_def Let_def)

lemma forward_lines_closed [simp]: "forward_lines parse False ls = []"
  by (cases ls) simp_all

lemma on_chunk_frames_closed:
  "\<not> socket_open w s \<Longrightarrow> frames (on_chunk parse s chunk w) = frames w"
  by (simp add: on_chunk_def Let_def)

lemma on_chunk_frames_other:
  "s' \<noteq> s \<Longrightarrow> frames_of s' (on_chunk parse s chunk w) = frames_of s' w"
  by (simp add: on_chunk_def Let_def frames_of_def filter_map o_def)

lemma abort_pending_sel [simp]:
  "activeConnections (abort_pending k w) = activeConnections w"
  "socket_open (abort_pending k w) = socket_open w"
  "flights (abort_pending k w) = flights w"
  "next_handle (abort_pending k w) = next_handle w"
  "fetches (abort_pending k w) = fetches w"
  "frames (abort_pending k w) = frames w"
  by (simp_all add: abort_pending_def split: option.splits)

lemma on_close_sel [simp]:
  "activeConnections (on_close k s w) k' = (if k' = k then None else activeConnections w k')"
  "socket_open (on_close k s w) = (socket_open w)(s := False)"
  "flights (on_close k s w) = flights w"
  "next_handle (on_close k s w) = next_handle w"
  "fetches (on_close k s w) = fetches w"
  "frames (on_close k s w) = frames w"
  by (simp_all add: on_close_def Let_def)

lemma removed_sel [simp]:
  "removed (send_frame s d w) = removed w"
  "removed (on_connection k s w) = removed w"
  "removed (catch_block s err w) = removed w"
  "removed (finally_block k w) = removed w"
  "removed (settle h w) = removed w"
  "removed (throw_in_try k s h err w) = removed w"
  "removed (after_loop k s h w) = removed w"
  "removed (loop_head k s h w) = removed w"
  "removed (on_chunk parse s chunk w) = removed w"
  "removed (abort_pending k w) = removed w"
  "removed (on_close k s w) =
     removed w @ (case activeConnections w k of None \<Rightarrow> [] | Some c \<Rightarrow> [c])"
  by (simp_all add: send_frame_def on_connection_def catch_block_def finally_block_def
      settle_def throw_in_try_def after_loop_def loop_head_def on_chunk_def abort_pending_def
      on_close_def Let_def split: option.splits)

lemma on_message_idle:
  assumes "activeConnections w k = Some c" "\<not> isProcessing c"
  shows "activeConnections (on_message M k s i w) k'
           = (if k' = k
              then Some (c\<lparr>isProcessing := True, abortController := Some (next_handle w)\<rparr>)
              else activeConnections w k')"
    and "socket_open (on_message M k s i w) = socket_open w"
    and "flights (on_message M k s i w) = flights w @ [(next_handle w, s, AwaitFetch)]"
    and "next_handle (on_message M k s i w) = Suc (next_handle w)"
    and "fetches (on_message M k s i w) = fetches w @
           [(next_handle w, \<lparr>g_model = M, g_prompt = i, g_system = Some STRATIFY_SYSTEM\<rparr>)]"
    and "aborted (on_message M k s i w) = aborted w"
    and "frames (on_message M k s i w)
           = frames w @ (if socket_open w s then [(s, greeting_frame)] else [])"
  using assms by (simp_all add: on_message_def Let_def)

lemma on_message_busy:
  "activeConnections w k = Some c \<Longrightarrow> isProcessing c \<Longrightarrow> on_message M k s i w = w"
  by (simp add: on_message_def)

lemma on_message_unregistered:
  "activeConnections w k = None \<Longrightarrow> on_message M k s i w = w"
  by (simp add: on_message_def)

lemma on_message_other_key:
  "k' \<noteq> k \<Longrightarrow> activeConnections (on_message M k s i w) k' = activeConnections w k'"
  by (simp add: on_message_def Let_def split: option.splits)


section \<open>The controllers of the suspended runs\<close>

lemma handles_inv_init: "handles_inv world_init"
  by (simp add: handles_inv_def world_init_def)

lemma handles_keep:
  assumes "handles_inv w" "next_handle w' = next_handle w" "fetches w' = fetches w"
    and "map fst (flights w') = map fst (flights w)"
  shows "handles_inv w'"
proof -
  have "fst ` set (flights w') = fst ` set (flights w)"
    using assms(4) by (metis set_map)
  then have "\<forall>f\<in>set (flights w'). \<exists>g\<in>set (flights w). fst g = fst f"
    by (metis (no_types, lifting) imageE imageI)
  then show ?thesis
    using assms unfolding handles_inv_def by (metis (no_types, lifting))
qed

lemma handles_filter:
  assumes "handles_inv w" "next_handle w' = next_handle w" "fetches w' = fetches w"
    and "flights w' = filter P (flights w)"
  shows "handles_inv w'"
  using assms unfolding handles_inv_def by (auto simp: distinct_map_filter)

lemma handles_loop_head: "handles_inv w \<Longrightarrow> handles_inv (loop_head k s h w)"
proof (cases "socket_open w s")
  case True
  assume "handles_inv w"
  then show ?thesis
    using True by (elim handles_keep) (simp_all add: loop_head_flights o_def if_distrib cong: if_cong)
next
  case False
  assume "handles_inv w"
  then show ?thesis
    using False by (elim handles_filter [where P = "\<lambda>f. fst f \<noteq> h"]) (simp_all add: loop_head_flights)
qed

lemma handles_on_message: "handles_inv w \<Longrightarrow> handles_inv (on_message M k s i w)"
proof (cases "activeConnections w k")
  case None
  assume "handles_inv w"
  then show ?thesis using None by (simp add: on_message_unregistered)
next
  case (Some c)
  assume inv: "handles_inv w"
  show ?thesis
  proof (cases "isProcessing c")
    case True
    then show ?thesis using inv Some by (simp add: on_message_busy)
  next
    case False
    note sel = on_message_idle [OF Some False, of M s i]
    show ?thesis
      using inv unfolding handles_inv_def sel
      by (auto simp: less_Suc_eq)
  qed
qed

lemma handles_step: "handles_inv w \<Longrightarrow> handles_inv (step M cid parse e w)"
proof (cases e)
  case (Connection s)
  assume "handles_inv w"
  then have "handles_inv (on_connection (cid s) s w)"
    by (elim handles_keep) simp_all
  then show ?thesis using Connection by (simp add: step_def)
next
  case (Message s i)
  assume "handles_inv w"
  then show ?thesis using Message by (simp add: step_def handles_on_message)
next
  case (Close s)
  assume "handles_inv w"
  then have "handles_inv (on_close (cid s) s w)"
    by (elim handles_keep) simp_all
  then show ?thesis using Close by (simp add: step_def)
next
  case (SocketError s)
  assume "handles_inv w"
  then have "handles_inv (on_error (cid s) w)"
    unfolding on_error_def by (elim handles_keep) simp_all
  then show ?thesis using SocketError by (simp add: step_def)
next
  case (Closing s)
  assume "handles_inv w"
  then have "handles_inv (w\<lparr>socket_open := (socket_open w)(s := False)\<rparr>)"
    by (elim handles_keep) simp_all
  then show ?thesis using Closing by (simp add: step_def)
next
  case (FetchResolved h response)
  assume inv: "handles_inv w"
  have t: "\<And>k s err. handles_inv (throw_in_try k s h err w)"
    by (rule handles_filter [OF inv, where P = "\<lambda>f. fst f \<noteq> h"]) simp_all
  show ?thesis
    using FetchResolved inv t handles_loop_head [OF inv]
    by (simp add: step_def split: option.splits prod.splits)
next
  case (ReadValue h chunk)
  assume inv: "handles_inv w"
  have "\<And>s. handles_inv (on_chunk parse s chunk w)"
    by (rule handles_keep [OF inv]) simp_all
  then have "\<And>k s. handles_inv (loop_head k s h (on_chunk parse s chunk w))"
    by (rule handles_loop_head)
  then show ?thesis
    using ReadValue inv by (simp add: step_def split: option.splits prod.splits)
next
  case (ReadDone h)
  assume inv: "handles_inv w"
  have "\<And>k s. handles_inv (after_loop k s h w)"
    by (rule handles_filter [OF inv, where P = "\<lambda>f. fst f \<noteq> h"]) simp_all
  then show ?thesis
    using ReadDone inv by (simp add: step_def split: option.splits prod.splits)
next
  case (Throws h err)
  assume inv: "handles_inv w"
  have "\<And>k s. handles_inv (throw_in_try k s h err w)"
    by (rule handles_filter [OF inv, where P = "\<lambda>f. fst f \<noteq> h"]) simp_all
  then show ?thesis
    using Throws inv by (simp add: step_def split: option.splits prod.splits)
qed

lemma handles_run: "handles_inv w \<Longrightarrow> handles_inv (run M cid parse es w)"
  by (induction es arbitrary: w) (simp_all add: handles_step)


section \<open>The runs of one socket\<close>

lemma flight_unique:
  assumes "handles_inv w" "map_of (flights w) h = Some (s, at)" "f \<in> set (flights w)" "fst f = h"
  shows "f = (h, s, at)"
proof -
  have d: "distinct (map fst (flights w))"
    using assms(1) by (simp add: handles_inv_def)
  obtain v where f: "f = (h, v)" using assms(4) by (cases f) auto
  then have "map_of (flights w) h = Some v"
    using d assms(3) by (simp add: map_of_eq_Some_iff)
  then show ?thesis using assms(2) f by simp
qed

lemma flight_member:
  "map_of (flights w) h = Some (s, at) \<Longrightarrow> (h, s, at) \<in> set (flights w)"
  by (rule map_of_SomeD)

lemma filter_filter_same:
  "(\<And>x. x \<in> set xs \<Longrightarrow> Q x \<Longrightarrow> P x) \<Longrightarrow> filter Q (filter P xs) = filter Q xs"
  by (induction xs) auto

lemma own_flights_settle:
  "own_flights s0 (settle h w) = filter (\<lambda>f. fst f \<noteq> h) (own_flights s0 w)"
  by (simp add: own_flights_def) (metis (mono_tags, lifting) filter_cong)

lemma own_flights_other_end:
  assumes "handles_inv w" "map_of (flights w) h = Some (s, at)" "s \<noteq> s0"
    and "flights w' = filter (\<lambda>f. fst f \<noteq> h) (flights w)"
  shows "own_flights s0 w' = own_flights s0 w"
proof -
  have "\<And>f. f \<in> set (flights w) \<Longrightarrow> fst (snd f) = s0 \<Longrightarrow> fst f \<noteq> h"
    using flight_unique [OF assms(1,2)] assms(3) by fastforce
  then show ?thesis
    unfolding own_flights_def assms(4) by (intro filter_filter_same) blast
qed

lemma own_flights_other_map:
  assumes "handles_inv w" "map_of (flights w) h = Some (s, at)" "s \<noteq> s0"
    and "flights w' = map (\<lambda>f. if fst f = h then (h, s, AwaitRead) else f) (flights w)"
  shows "own_flights s0 w' = own_flights s0 w"
proof -
  have n: "\<And>f. f \<in> set (flights w) \<Longrightarrow> fst (snd f) = s0 \<Longrightarrow> fst f \<noteq> h"
    using flight_unique [OF assms(1,2)] assms(3) by fastforce
  have "filter (\<lambda>f. fst (snd f) = s0) (map (\<lambda>f. if fst f = h then (h, s, AwaitRead) else f) fl)
        = filter (\<lambda>f. fst (snd f) = s0) fl"
    if "\<And>f. f \<in> set fl \<Longrightarrow> fst (snd f) = s0 \<Longrightarrow> fst f \<noteq> h" for fl
    using that assms(3) by (induction fl) auto
  then show ?thesis
    unfolding own_flights_def assms(4) using n by blast
qed

lemma own_flights_single:
  assumes "flight_inv k s0 w" "(h, s0, at) \<in> set (flights w)"
  shows "own_flights s0 w = [(h, s0, at)]"
proof -
  have m: "(h, s0, at) \<in> set (own_flights s0 w)"
    using assms(2) by (simp add: own_flights_def)
  have "length (own_flights s0 w) \<le> 1"
    using assms(1) by (simp add: flight_inv_def)
  with m show ?thesis
    by (cases "own_flights s0 w") (auto simp: le_Suc_eq)
qed

lemma own_flights_own_end:
  assumes "flight_inv k s0 w" "(h, s0, at) \<in> set (flights w)"
    and "flights w' = filter (\<lambda>f. fst f \<noteq> h) (flights w)"
  shows "own_flights s0 w' = []"
proof -
  have "own_flights s0 w' = filter (\<lambda>f. fst f \<noteq> h) (own_flights s0 w)"
    unfolding own_flights_def assms(3) by (simp) (metis (mono_tags, lifting) filter_cong)
  then show ?thesis
    using own_flights_single [OF assms(1,2)] by simp
qed

lemma own_flights_own_map:
  assumes "handles_inv w" "flight_inv k s0 w" "map_of (flights w) h = Some (s0, at)"
    and "flights w' = map (\<lambda>f. if fst f = h then (h, s0, AwaitRead) else f) (flights w)"
  shows "own_flights s0 w' = [(h, s0, AwaitRead)]"
proof -
  have u: "\<And>f. f \<in> set (flights w) \<Longrightarrow> fst f = h \<Longrightarrow> fst (snd f) = s0"
    using flight_unique [OF assms(1,3)] by fastforce
  have "filter (\<lambda>f. fst (snd f) = s0) (map (\<lambda>f. if fst f = h then (h, s0, AwaitRead) else f) fl)
        = map (\<lambda>f. if fst f = h then (h, s0, AwaitRead) else f) (filter (\<lambda>f. fst (snd f) = s0) fl)"
    if "\<And>f. f \<in> set fl \<Longrightarrow> fst f = h \<Longrightarrow> fst (snd f) = s0" for fl
    using that by (induction fl) auto
  then have "own_flights s0 w'
        = map (\<lambda>f. if fst f = h then (h, s0, AwaitRead) else f) (own_flights s0 w)"
    unfolding own_flights_def assms(4) using u by blast
  then show ?thesis
    using own_flights_single [OF assms(2) flight_member [OF assms(3)]] by simp
qed

lemma inv_keep:
  assumes "flight_inv k s0 w" "map fst (own_flights s0 w') = map fst (own_flights s0 w)"
    and "activeConnections w' k = activeConnections w k \<or> activeConnections w' k = None"
  shows "flight_inv k s0 w'"
proof -
  have len: "length (own_flights s0 w') = length (own_flights s0 w)"
    using assms(2) by (metis length_map)
  have st: "fst ` set (own_flights s0 w') = fst ` set (own_flights s0 w)"
    using assms(2) by (metis set_map)
  have emp: "own_flights s0 w' = [] \<longleftrightarrow> own_flights s0 w = []"
    using len by auto
  have 1: "length (own_flights s0 w') \<le> 1"
    using assms(1) len by (simp add: flight_inv_def)
  have 2: "\<forall>f\<in>set (own_flights s0 w').
        \<forall>c. activeConnections w' k = Some c \<longrightarrow>
           isProcessing c \<and> abortController c = Some (fst f)"
  proof (intro ballI allI impI)
    fix f c assume f: "f \<in> set (own_flights s0 w')" and c: "activeConnections w' k = Some c"
    from f have "fst f \<in> fst ` set (own_flights s0 w)" using st by blast
    then obtain g where g: "g \<in> set (own_flights s0 w)" "fst g = fst f" by auto
    from c assms(3) have "activeConnections w k = Some c" by auto
    with assms(1) g show "isProcessing c \<and> abortController c = Some (fst f)"
      unfolding flight_inv_def by metis
  qed
  have 3: "own_flights s0 w' = [] \<longrightarrow>
        (\<forall>c. activeConnections w' k = Some c \<longrightarrow> \<not> isProcessing c \<and> abortController c = None)"
    using assms(1,3) emp unfolding flight_inv_def by auto
  show ?thesis
    unfolding flight_inv_def using 1 2 3 by blast
qed

lemma inv_ended:
  assumes "own_flights s0 w' = []"
    and "activeConnections w' k =
           map_option (\<lambda>c. c\<lparr>isProcessing := False, abortController := None\<rparr>)
             (activeConnections w k)"
  shows "flight_inv k s0 w'"
  unfolding flight_inv_def using assms by auto

lemma inv_idle_no_flight:
  assumes "flight_inv k s0 w" "activeConnections w k = Some c" "\<not> isProcessing c"
  shows "own_flights s0 w = []"
proof (rule ccontr)
  assume "own_flights s0 w \<noteq> []"
  then obtain f where "f \<in> set (own_flights s0 w)" by (cases "own_flights s0 w") auto
  with assms show False unfolding flight_inv_def by blast
qed

lemma own_flights_on_message_idle:
  assumes "activeConnections w k = Some c" "\<not> isProcessing c"
  shows "own_flights s0 (on_message M k s i w) =
         own_flights s0 w @ (if s = s0 then [(next_handle w, s, AwaitFetch)] else [])"
  using on_message_idle(3) [OF assms, of M s i] by (simp add: own_flights_def)

lemma inv_on_message_own:
  assumes inv: "flight_inv k s0 w"
  shows "flight_inv k s0 (on_message M k s0 i w)"
proof (cases "activeConnections w k")
  case None
  then show ?thesis using inv by (simp add: on_message_unregistered)
next
  case (Some c)
  show ?thesis
  proof (cases "isProcessing c")
    case True
    then show ?thesis using inv Some by (simp add: on_message_busy)
  next
    case False
    have e: "own_flights s0 w = []" by (rule inv_idle_no_flight [OF inv Some False])
    show ?thesis
      unfolding flight_inv_def own_flights_on_message_idle [OF Some False]
        on_message_idle(1) [OF Some False]
      using e by simp
  qed
qed

lemma inv_on_message_other:
  assumes inv: "flight_inv k s0 w" and "k' \<noteq> k" "s \<noteq> s0"
  shows "flight_inv k s0 (on_message M k' s i w)"
proof (cases "activeConnections w k'")
  case None
  then show ?thesis using inv by (simp add: on_message_unregistered)
next
  case (Some c)
  show ?thesis
  proof (cases "isProcessing c")
    case True
    then show ?thesis using inv Some by (simp add: on_message_busy)
  next
    case False
    show ?thesis
      using assms(2,3)
      by (intro inv_keep [OF inv])
         (simp_all add: own_flights_on_message_idle [OF Some False] on_message_other_key)
  qed
qed

lemma inv_flight_event:
  assumes h: "handles_inv w" and inv: "flight_inv (cid s0) s0 w"
    and uniq: "\<forall>s. cid s = cid s0 \<longrightarrow> s = s0"
    and m: "map_of (flights w) h = Some (s, at)"
  shows "flight_inv (cid s0) s0 (throw_in_try (cid s) s h err w)"
    and "flight_inv (cid s0) s0 (after_loop (cid s) s h w)"
    and "flight_inv (cid s0) s0 (loop_head (cid s) s h w)"
proof -
  have mem: "(h, s, at) \<in> set (flights w)" by (rule flight_member [OF m])
  show "flight_inv (cid s0) s0 (throw_in_try (cid s) s h err w)"
  proof (cases "s = s0")
    case True
    show ?thesis
      unfolding True
      by (rule inv_ended)
         (simp_all add: own_flights_own_end [OF inv mem [unfolded True]])
  next
    case False
    then have k: "cid s0 \<noteq> cid s" using uniq by metis
    show ?thesis
      using k by (intro inv_keep [OF inv])
        (simp_all add: own_flights_other_end [OF h m False])
  qed
  show "flight_inv (cid s0) s0 (after_loop (cid s) s h w)"
  proof (cases "s = s0")
    case True
    show ?thesis
      unfolding True
      by (rule inv_ended)
         (simp_all add: own_flights_own_end [OF inv mem [unfolded True]])
  next
    case False
    then have k: "cid s0 \<noteq> cid s" using uniq by metis
    show ?thesis
      using k by (intro inv_keep [OF inv])
        (simp_all add: own_flights_other_end [OF h m False])
  qed
  show "flight_inv (cid s0) s0 (loop_head (cid s) s h w)"
  proof (cases "s = s0")
    case True
    show ?thesis
    proof (cases "socket_open w s0")
      case opn: True
      have "own_flights s0 (loop_head (cid s0) s0 h w) = [(h, s0, AwaitRead)]"
        by (rule own_flights_own_map [OF h inv m [unfolded True]])
           (simp add: loop_head_flights opn)
      moreover have "own_flights s0 w = [(h, s0, at)]"
        by (rule own_flights_single [OF inv mem [unfolded True]])
      ultimately show ?thesis
        unfolding True using opn by (intro inv_keep [OF inv]) (simp_all add: loop_head_entry)
    next
      case shut: False
      show ?thesis
        unfolding True
        by (rule inv_ended)
           (simp_all add: own_flights_own_end [OF inv mem [unfolded True]]
              loop_head_flights loop_head_entry shut)
    qed
  next
    case False
    then have k: "cid s0 \<noteq> cid s" using uniq by metis
    show ?thesis
    proof (cases "socket_open w s")
      case opn: True
      show ?thesis
        using k opn by (intro inv_keep [OF inv])
          (simp_all add: own_flights_other_map [OF h m False] loop_head_flights loop_head_entry)
    next
      case shut: False
      show ?thesis
        using k shut by (intro inv_keep [OF inv])
          (simp_all add: own_flights_other_end [OF h m False] loop_head_flights loop_head_entry)
    qed
  qed
qed


lemma own_flights_flights:
  "flights w' = flights w \<Longrightarrow> own_flights s0 w' = own_flights s0 w"
  by (simp add: own_flights_def)

lemma inv_step:
  assumes h: "handles_inv w" and inv: "flight_inv (cid s0) s0 w"
    and uniq: "\<forall>s. cid s = cid s0 \<longrightarrow> s = s0"
    and e: "e \<noteq> Connection s0"
  shows "flight_inv (cid s0) s0 (step M cid parse e w)"
proof (cases e)
  case (Connection s)
  with e have "s \<noteq> s0" by simp
  then have k: "cid s0 \<noteq> cid s" using uniq by metis
  have "flight_inv (cid s0) s0 (on_connection (cid s) s w)"
    using k by (intro inv_keep [OF inv]) (simp_all add: own_flights_def)
  then show ?thesis using Connection by (simp add: step_def)
next
  case (Message s i)
  show ?thesis
  proof (cases "s = s0")
    case True
    then show ?thesis using Message inv_on_message_own [OF inv] by (simp add: step_def)
  next
    case False
    then have k: "cid s \<noteq> cid s0" using uniq by metis
    show ?thesis
      using Message inv_on_message_other [OF inv k False] by (simp add: step_def)
  qed
next
  case (Close s)
  have "flight_inv (cid s0) s0 (on_close (cid s) s w)"
    by (intro inv_keep [OF inv]) (simp_all add: own_flights_def)
  then show ?thesis using Close by (simp add: step_def)
next
  case (SocketError s)
  have "flight_inv (cid s0) s0 (on_error (cid s) w)"
    unfolding on_error_def by (intro inv_keep [OF inv]) (simp_all add: own_flights_def)
  then show ?thesis using SocketError by (simp add: step_def)
next
  case (Closing s)
  have "flight_inv (cid s0) s0 (w\<lparr>socket_open := (socket_open w)(s := False)\<rparr>)"
    by (intro inv_keep [OF inv]) (simp_all add: own_flights_def)
  then show ?thesis using Closing by (simp add: step_def)
next
  case (FetchResolved hh response)
  show ?thesis
  proof (cases "map_of (flights w) hh")
    case None
    then show ?thesis using FetchResolved inv by (simp add: step_def)
  next
    case (Some v)
    obtain s at where v: "v = (s, at)" by (cases v)
    note ev = inv_flight_event [OF h inv uniq Some [unfolded v]]
    show ?thesis
      using FetchResolved Some v inv ev by (simp add: step_def)
  qed
next
  case (ReadValue hh chunk)
  show ?thesis
  proof (cases "map_of (flights w) hh")
    case None
    then show ?thesis using ReadValue inv by (simp add: step_def)
  next
    case (Some v)
    obtain s at where v: "v = (s, at)" by (cases v)
    let ?w = "on_chunk parse s chunk w"
    have h': "handles_inv ?w" by (rule handles_keep [OF h]) simp_all
    have inv': "flight_inv (cid s0) s0 ?w"
      by (intro inv_keep [OF inv]) (simp_all add: own_flights_def)
    have m': "map_of (flights ?w) hh = Some (s, at)" using Some v by simp
    note ev = inv_flight_event(3) [OF h' inv' uniq m']
    show ?thesis
      using ReadValue Some v inv ev by (simp add: step_def)
  qed
next
  case (ReadDone hh)
  show ?thesis
  proof (cases "map_of (flights w) hh")
    case None
    then show ?thesis using ReadDone inv by (simp add: step_def)
  next
    case (Some v)
    obtain s at where v: "v = (s, at)" by (cases v)
    note ev = inv_flight_event [OF h inv uniq Some [unfolded v]]
    show ?thesis
      using ReadDone Some v inv ev by (simp add: step_def)
  qed
next
  case (Throws hh err)
  show ?thesis
  proof (cases "map_of (flights w) hh")
    case None
    then show ?thesis using Throws inv by (simp add: step_def)
  next
    case (Some v)
    obtain s at where v: "v = (s, at)" by (cases v)
    note ev = inv_flight_event [OF h inv uniq Some [unfolded v]]
    show ?thesis
      using Throws Some v inv ev by (simp add: step_def)
  qed
qed

lemma inv_run:
  assumes "handles_inv w" "flight_inv (cid s0) s0 w" "\<forall>s. cid s = cid s0 \<longrightarrow> s = s0"
    and "Connection s0 \<notin> set es"
  shows "flight_inv (cid s0) s0 (run M cid parse es w)"
  using assms
proof (induction es arbitrary: w)
  case Nil
  then show ?case by simp
next
  case (Cons e es)
  from Cons.prems(4) have e: "e \<noteq> Connection s0" and es: "Connection s0 \<notin> set es" by auto
  show ?case
    using Cons.IH [OF handles_step [OF Cons.prems(1)] inv_step [OF Cons.prems(1,2,3) e]
        Cons.prems(3) es]
    by simp
qed

lemma on_message_entry_none:
  "activeConnections w k = None \<Longrightarrow> activeConnections (on_message M k' s i w) k = None"
  by (cases "k' = k") (simp_all add: on_message_unregistered on_message_other_key)

lemma on_message_entry_some:
  assumes "activeConnections w k \<noteq> None"
  shows "activeConnections (on_message M k' s i w) k \<noteq> None"
proof (cases "k' = k")
  case False
  then show ?thesis using assms by (simp add: on_message_other_key)
next
  case True
  from assms obtain c where c: "activeConnections w k = Some c" by auto
  show ?thesis
    unfolding True using c on_message_idle(1) [OF c, of M s i k] on_message_busy [OF c, of M s i]
    by (cases "isProcessing c") simp_all
qed

lemma unregistered_step:
  assumes "activeConnections w k = None" "\<forall>s. e = Connection s \<longrightarrow> cid s \<noteq> k"
  shows "activeConnections (step M cid parse e w) k = None"
proof (cases e)
  case (Connection s)
  then show ?thesis using assms by (simp add: step_def)
next
  case (Message s i)
  then show ?thesis using assms by (simp add: step_def on_message_entry_none)
next
  case (Close s)
  then show ?thesis using assms by (simp add: step_def)
next
  case (SocketError s)
  then show ?thesis using assms by (simp add: step_def on_error_def)
next
  case (Closing s)
  then show ?thesis using assms by (simp add: step_def)
next
  case (FetchResolved h response)
  then show ?thesis
    using assms by (auto simp: step_def loop_head_entry split: option.splits prod.splits)
next
  case (ReadValue h chunk)
  then show ?thesis
    using assms by (auto simp: step_def loop_head_entry split: option.splits prod.splits)
next
  case (ReadDone h)
  then show ?thesis
    using assms by (auto simp: step_def split: option.splits prod.splits)
next
  case (Throws h err)
  then show ?thesis
    using assms by (auto simp: step_def split: option.splits prod.splits)
qed

lemma registered_step:
  assumes "activeConnections w k \<noteq> None" "\<forall>s. e = Close s \<longrightarrow> cid s \<noteq> k"
  shows "activeConnections (step M cid parse e w) k \<noteq> None"
proof (cases e)
  case (Connection s)
  then show ?thesis using assms by (simp add: step_def)
next
  case (Message s i)
  then show ?thesis using assms by (simp add: step_def on_message_entry_some)
next
  case (Close s)
  then show ?thesis using assms by (simp add: step_def)
next
  case (SocketError s)
  then show ?thesis using assms by (simp add: step_def on_error_def)
next
  case (Closing s)
  then show ?thesis using assms by (simp add: step_def)
next
  case (FetchResolved h response)
  then show ?thesis
    using assms by (auto simp: step_def loop_head_entry split: option.splits prod.splits)
next
  case (ReadValue h chunk)
  then show ?thesis
    using assms by (auto simp: step_def loop_head_entry split: option.splits prod.splits)
next
  case (ReadDone h)
  then show ?thesis
    using assms by (auto simp: step_def split: option.splits prod.splits)
next
  case (Throws h err)
  then show ?thesis
    using assms by (auto simp: step_def split: option.splits prod.splits)
qed

lemma not_accepted_step:
  assumes h: "handles_inv w" and na: "not_accepted (cid s0) s0 w"
    and uniq: "\<forall>s. cid s = cid s0 \<longrightarrow> s = s0"
    and e: "e \<noteq> Connection s0"
  shows "not_accepted (cid s0) s0 (step M cid parse e w)"
proof -
  from na have own: "own_flights s0 w = []" and ent: "activeConnections w (cid s0) = None"
    by (simp_all add: not_accepted_def)
  have conn: "\<forall>s. e = Connection s \<longrightarrow> cid s \<noteq> cid s0"
    using e uniq by metis
  have ent': "activeConnections (step M cid parse e w) (cid s0) = None"
    by (rule unregistered_step [OF ent conn])
  have other: "\<And>hh s at. map_of (flights w) hh = Some (s, at) \<Longrightarrow> s \<noteq> s0"
  proof
    fix hh s at assume m: "map_of (flights w) hh = Some (s, at)" and "s = s0"
    then have "(hh, s0, at) \<in> set (own_flights s0 w)"
      using flight_member [OF m] by (simp add: own_flights_def)
    with own show False by simp
  qed
  have own': "own_flights s0 (step M cid parse e w) = []"
  proof (cases e)
    case (Connection s)
    then show ?thesis using own by (simp add: step_def own_flights_def)
  next
    case (Message s i)
    show ?thesis
    proof (cases "activeConnections w (cid s)")
      case None
      then show ?thesis using Message own by (simp add: step_def on_message_unregistered)
    next
      case (Some c)
      then have "s \<noteq> s0" using ent by auto
      then show ?thesis
        using Message own Some own_flights_on_message_idle [OF Some, of s0 M s i]
          on_message_busy [OF Some, of M s i]
        by (cases "isProcessing c") (simp_all add: step_def)
    qed
  next
    case (Close s)
    then show ?thesis using own by (simp add: step_def own_flights_def)
  next
    case (SocketError s)
    then show ?thesis using own by (simp add: step_def on_error_def own_flights_def)
  next
    case (Closing s)
    then show ?thesis using own by (simp add: step_def own_flights_def)
  next
    case (FetchResolved hh response)
    show ?thesis
    proof (cases "map_of (flights w) hh")
      case None
      then show ?thesis using FetchResolved own by (simp add: step_def)
    next
      case (Some v)
      obtain s at where v: "v = (s, at)" by (cases v)
      note m = Some [unfolded v]
      note o = other [OF m]
      have "\<And>k err. own_flights s0 (throw_in_try k s hh err w) = own_flights s0 w"
        by (rule own_flights_other_end [OF h m o]) simp
      moreover have "\<And>k. own_flights s0 (loop_head k s hh w) = own_flights s0 w"
        by (cases "socket_open w s")
           (simp_all add: own_flights_other_end [OF h m o] own_flights_other_map [OF h m o]
              loop_head_flights)
      ultimately show ?thesis
        using FetchResolved Some v own by (simp add: step_def)
    qed
  next
    case (ReadValue hh chunk)
    show ?thesis
    proof (cases "map_of (flights w) hh")
      case None
      then show ?thesis using ReadValue own by (simp add: step_def)
    next
      case (Some v)
      obtain s at where v: "v = (s, at)" by (cases v)
      note m = Some [unfolded v]
      note o = other [OF m]
      let ?w = "on_chunk parse s chunk w"
      have h': "handles_inv ?w" by (rule handles_keep [OF h]) simp_all
      have m': "map_of (flights ?w) hh = Some (s, at)" using m by simp
      have "\<And>k. own_flights s0 (loop_head k s hh ?w) = own_flights s0 ?w"
        by (cases "socket_open w s")
           (simp_all add: own_flights_other_end [OF h' m' o] own_flights_other_map [OF h' m' o]
              loop_head_flights)
      then show ?thesis
        using ReadValue Some v own by (simp add: step_def own_flights_def)
    qed
  next
    case (ReadDone hh)
    show ?thesis
    proof (cases "map_of (flights w) hh")
      case None
      then show ?thesis using ReadDone own by (simp add: step_def)
    next
      case (Some v)
      obtain s at where v: "v = (s, at)" by (cases v)
      note m = Some [unfolded v]
      have "\<And>k. own_flights s0 (after_loop k s hh w) = own_flights s0 w"
        by (rule own_flights_other_end [OF h m other [OF m]]) simp
      then show ?thesis
        using ReadDone Some v own by (simp add: step_def)
    qed
  next
    case (Throws hh err)
    show ?thesis
    proof (cases "map_of (flights w) hh")
      case None
      then show ?thesis using Throws own by (simp add: step_def)
    next
      case (Some v)
      obtain s at where v: "v = (s, at)" by (cases v)
      note m = Some [unfolded v]
      have "\<And>k. own_flights s0 (throw_in_try k s hh err w) = own_flights s0 w"
        by (rule own_flights_other_end [OF h m other [OF m]]) simp
      then show ?thesis
        using Throws Some v own by (simp add: step_def)
    qed
  qed
  show ?thesis
    unfolding not_accepted_def using own' ent' by simp
qed

lemma not_accepted_run:
  assumes "handles_inv w" "not_accepted (cid s0) s0 w" "\<forall>s. cid s = cid s0 \<longrightarrow> s = s0"
    and "Connection s0 \<notin> set es"
  shows "not_accepted (cid s0) s0 (run M cid parse es w)"
  using assms
proof (induction es arbitrary: w)
  case Nil
  then show ?case by simp
next
  case (Cons e es)
  from Cons.prems(4) have e: "e \<noteq> Connection s0" and es: "Connection s0 \<notin> set es" by auto
  show ?case
    using Cons.IH [OF handles_step [OF Cons.prems(1)] not_accepted_step [OF Cons.prems(1,2,3) e]
        Cons.prems(3) es]
    by simp
qed

lemma run_append:
  "run M cid parse (a @ b) w = run M cid parse b (run M cid parse a w)"
  by (induction a arbitrary: w) simp_all

lemma accepted_inv:
  assumes uniq: "\<forall>s. cid s = cid s0 \<longrightarrow> s = s0"
    and w: "w = run M cid parse (pre @ Connection s0 # es) world_init"
    and pre: "Connection s0 \<notin> set pre" and es: "Connection s0 \<notin> set es"
  shows "handles_inv w" and "flight_inv (cid s0) s0 w"
proof -
  let ?p = "run M cid parse pre world_init"
  let ?a = "step M cid parse (Connection s0) ?p"
  have hp: "handles_inv ?p" by (rule handles_run [OF handles_inv_init])
  have "not_accepted (cid s0) s0 world_init"
    by (simp add: not_accepted_def own_flights_def world_init_def)
  then have na: "not_accepted (cid s0) s0 ?p"
    by (rule not_accepted_run [OF handles_inv_init _ uniq pre])
  have ha: "handles_inv ?a" by (rule handles_step [OF hp])
  have ia: "flight_inv (cid s0) s0 ?a"
    using na by (simp add: flight_inv_def not_accepted_def step_def own_flights_def)
  have weq: "w = run M cid parse es ?a"
    unfolding w by (simp add: run_append)
  show "handles_inv w" unfolding weq by (rule handles_run [OF ha])
  show "flight_inv (cid s0) s0 w" unfolding weq by (rule inv_run [OF ha ia uniq es])
qed


lemma registered_run:
  assumes "activeConnections w k \<noteq> None" "\<forall>s. Close s \<in> set es \<longrightarrow> cid s \<noteq> k"
  shows "activeConnections (run M cid parse es w) k \<noteq> None"
  using assms
proof (induction es arbitrary: w)
  case Nil
  then show ?case by simp
next
  case (Cons e es)
  have "activeConnections (step M cid parse e w) k \<noteq> None"
    using Cons.prems by (intro registered_step) auto
  then show ?case using Cons.IH Cons.prems(2) by simp
qed

lemma accepted_registered:
  assumes uniq: "\<forall>s. cid s = cid s0 \<longrightarrow> s = s0"
    and w: "w = run M cid parse (pre @ Connection s0 # es) world_init"
    and es: "Close s0 \<notin> set es"
  shows "activeConnections w (cid s0) \<noteq> None"
proof -
  have "\<forall>s. Close s \<in> set es \<longrightarrow> cid s \<noteq> cid s0"
    using uniq es by metis
  then show ?thesis
    unfolding w run_append by (simp add: step_def registered_run)
qed

lemma busy_iff_flight:
  assumes "flight_inv k s0 w" "activeConnections w k = Some c"
  shows "isProcessing c \<longleftrightarrow> own_flights s0 w \<noteq> []"
proof
  assume "isProcessing c"
  with assms show "own_flights s0 w \<noteq> []" unfolding flight_inv_def by blast
next
  assume "own_flights s0 w \<noteq> []"
  then obtain f where "f \<in> set (own_flights s0 w)" by (cases "own_flights s0 w") auto
  with assms show "isProcessing c" unfolding flight_inv_def by blast
qed

lemma enter_flight:
  assumes h: "handles_inv w" and inv: "flight_inv (cid s0) s0 w"
    and c: "activeConnections w (cid s0) = Some c" and idle: "\<not> isProcessing c"
  shows "activeConnections (step M cid parse (Message s0 i) w) (cid s0)
           = Some (c\<lparr>isProcessing := True, abortController := Some (next_handle w)\<rparr>)"
    and "next_handle w \<notin> fst ` set (fetches w)"
    and "fetches (step M cid parse (Message s0 i) w) = fetches w @
           [(next_handle w, \<lparr>g_model = M, g_prompt = i, g_system = Some STRATIFY_SYSTEM\<rparr>)]"
    and "own_flights s0 (step M cid parse (Message s0 i) w) = [(next_handle w, s0, AwaitFetch)]"
proof -
  note sel = on_message_idle [OF c idle, of M s0 i]
  have e: "own_flights s0 w = []" by (rule inv_idle_no_flight [OF inv c idle])
  show "activeConnections (step M cid parse (Message s0 i) w) (cid s0)
           = Some (c\<lparr>isProcessing := True, abortController := Some (next_handle w)\<rparr>)"
    using sel(1) by (simp add: step_def)
  have "\<forall>f\<in>set (fetches w). fst f < next_handle w"
    using h by (simp add: handles_inv_def)
  then show "next_handle w \<notin> fst ` set (fetches w)" by auto
  show "fetches (step M cid parse (Message s0 i) w) = fetches w @
           [(next_handle w, \<lparr>g_model = M, g_prompt = i, g_system = Some STRATIFY_SYSTEM\<rparr>)]"
    using sel(5) by (simp add: step_def)
  show "own_flights s0 (step M cid parse (Message s0 i) w) = [(next_handle w, s0, AwaitFetch)]"
    using own_flights_on_message_idle [OF c idle, of s0 M s0 i] e by (simp add: step_def)
qed

lemma own_flight_lookup:
  assumes h: "handles_inv w" and o: "own_flights s0 w = [(hh, s0, at)]"
  shows "map_of (flights w) hh = Some (s0, at)" and "(hh, s0, at) \<in> set (flights w)"
proof -
  have "(hh, s0, at) \<in> set (own_flights s0 w)" using o by simp
  then show m: "(hh, s0, at) \<in> set (flights w)" by (simp add: own_flights_def)
  have "distinct (map fst (flights w))" using h by (simp add: handles_inv_def)
  then show "map_of (flights w) hh = Some (s0, at)"
    using m by (rule map_of_is_SomeI)
qed

lemma leave_flight:
  assumes h: "handles_inv w" and inv: "flight_inv k s0 w"
    and o: "own_flights s0 w = [(hh, s0, at)]"
  shows "own_flights s0 (step M cid parse (Throws hh err) w) = []"
    and "at = AwaitRead \<Longrightarrow> own_flights s0 (step M cid parse (ReadDone hh) w) = []"
proof -
  note l = own_flight_lookup [OF h o]
  show "own_flights s0 (step M cid parse (Throws hh err) w) = []"
    using l(1) by (simp add: step_def own_flights_own_end [OF inv l(2)])
  show "at = AwaitRead \<Longrightarrow> own_flights s0 (step M cid parse (ReadDone hh) w) = []"
    using l(1) by (simp add: step_def own_flights_own_end [OF inv l(2)])
qed

lemma close_in_flight:
  assumes h: "handles_inv w" and inv: "flight_inv (cid s0) s0 w"
    and o: "own_flights s0 w = [(hh, s0, at)]"
    and c: "activeConnections w (cid s0) = Some c"
  shows "isProcessing c" and "abortController c = Some hh"
    and "hh \<in> fst ` set (fetches w)"
    and "aborted (step M cid parse (Close s0) w) = aborted w @ [hh]"
    and "aborted (step M cid parse (SocketError s0) w) = aborted w @ [hh]"
    and "activeConnections (step M cid parse (Close s0) w) (cid s0) = None"
    and "removed (step M cid parse (Close s0) w) = removed w @ [c]"
    and "own_flights s0
           (step M cid parse (Throws hh err) (step M cid parse (Close s0) w)) = []"
    and "activeConnections
           (step M cid parse (Throws hh err) (step M cid parse (Close s0) w)) (cid s0) = None"
    and "removed (step M cid parse (Throws hh err) (step M cid parse (Close s0) w))
           = removed w @ [c]"
proof -
  note l = own_flight_lookup [OF h o]
  have "(hh, s0, at) \<in> set (own_flights s0 w)" using o by simp
  with inv c show p: "isProcessing c" and a: "abortController c = Some hh"
    unfolding flight_inv_def by auto
  show "hh \<in> fst ` set (fetches w)"
    using h l(2) unfolding handles_inv_def by force
  show "aborted (step M cid parse (Close s0) w) = aborted w @ [hh]"
    using c a by (simp add: step_def on_close_def abort_pending_def Let_def)
  show "aborted (step M cid parse (SocketError s0) w) = aborted w @ [hh]"
    using c a by (simp add: step_def on_error_def abort_pending_def)
  show "activeConnections (step M cid parse (Close s0) w) (cid s0) = None"
    by (simp add: step_def)
  show "removed (step M cid parse (Close s0) w) = removed w @ [c]"
    using c by (simp add: step_def)
  let ?w1 = "step M cid parse (Close s0) w"
  have f1: "flights ?w1 = flights w" by (simp add: step_def)
  have m1: "map_of (flights ?w1) hh = Some (s0, at)" using l(1) f1 by simp
  have s2: "step M cid parse (Throws hh err) ?w1 = throw_in_try (cid s0) s0 hh err ?w1"
    using m1 by (simp add: step_def)
  have "own_flights s0 (throw_in_try (cid s0) s0 hh err ?w1) = []"
    by (rule own_flights_own_end [OF inv l(2)]) (simp add: f1)
  then show "own_flights s0 (step M cid parse (Throws hh err) ?w1) = []"
    unfolding s2 .
  show "activeConnections (step M cid parse (Throws hh err) ?w1) (cid s0) = None"
    unfolding s2 by (simp add: step_def)
  show "removed (step M cid parse (Throws hh err) ?w1) = removed w @ [c]"
    unfolding s2 using c by (simp add: step_def)
qed

lemma abort_suppressed:
  "err_name err = ''AbortError'' \<Longrightarrow> frames (step M cid parse (Throws h err) w) = frames w"
  by (simp add: step_def catch_block_frames split: option.splits prod.splits)

lemma frames_of_append:
  "frames w' = frames w @ fs \<Longrightarrow> frames_of s w' = frames_of s w @ map snd (filter (\<lambda>f. fst f = s) fs)"
  by (simp add: frames_of_def)

lemma filter_fst_Pair:
  "filter (\<lambda>f. fst f = s0) (map (Pair a) xs) = (if a = s0 then map (Pair a) xs else [])"
  by (induction xs) simp_all

lemma silent_step:
  assumes "\<not> socket_open w s0"
  shows "frames_of s0 (step M cid parse e w) = frames_of s0 w \<and>
         \<not> socket_open (step M cid parse e w) s0"
proof (cases e)
  case (Connection s)
  then show ?thesis using assms by (simp add: step_def frames_of_def)
next
  case (Message s i)
  show ?thesis
  proof (cases "activeConnections w (cid s)")
    case None
    then show ?thesis using Message assms by (simp add: step_def on_message_unregistered)
  next
    case (Some c)
    then show ?thesis
      using Message assms on_message_idle(2,7) [OF Some, of M s i]
        on_message_busy [OF Some, of M s i]
      by (cases "isProcessing c") (auto simp: step_def frames_of_def)
  qed
next
  case (Close s)
  then show ?thesis using assms by (simp add: step_def frames_of_def)
next
  case (SocketError s)
  then show ?thesis using assms by (simp add: step_def on_error_def frames_of_def)
next
  case (Closing s)
  then show ?thesis using assms by (simp add: step_def frames_of_def)
next
  case (FetchResolved h response)
  then show ?thesis
    using assms
    by (auto simp: step_def frames_of_def catch_block_def send_frame_def
        split: option.splits prod.splits)
next
  case (ReadValue h chunk)
  then show ?thesis
    using assms
    by (auto simp: step_def frames_of_def on_chunk_def Let_def filter_fst_Pair
        split: option.splits prod.splits)
next
  case (ReadDone h)
  then show ?thesis
    using assms by (auto simp: step_def frames_of_def split: option.splits prod.splits)
next
  case (Throws h err)
  then show ?thesis
    using assms
    by (auto simp: step_def frames_of_def catch_block_def send_frame_def
        split: option.splits prod.splits)
qed

lemma silent_run:
  "\<not> socket_open w s0 \<Longrightarrow> frames_of s0 (run M cid parse es w) = frames_of s0 w"
proof (induction es arbitrary: w)
  case Nil
  then show ?case by simp
next
  case (Cons e es)
  then show ?case
    using silent_step [OF Cons.prems, of M cid parse e] by simp
qed

lemma own_keys_unique: "\<forall>s. own_keys s = own_keys 0 \<longrightarrow> s = 0"
  by simp

section \<open>Closing a socket during a generation\<close>

text \<open>
  For a socket that shares its key with no other socket: while a run of its message
  handler is suspended and before its socket closes, the \<^verbatim>\<open>close\<close> handler calls
  \<^verbatim>\<open>abort()\<close> on that run's controller, the one whose signal was given to the
  upstream call; and after the close, whatever events follow, no frame is sent to
  the socket.  A rejection named \<^verbatim>\<open>AbortError\<close> sends no frame in any state
  (\<open>abort_suppressed\<close>).
\<close>

lemma close_cancels_own_flight:
  assumes "\<forall>s. connectionId s = connectionId s0 \<longrightarrow> s = s0"
    and "w = run MODEL_NAME connectionId parse (pre @ Connection s0 # es) world_init"
    and "Connection s0 \<notin> set pre" and "Connection s0 \<notin> set es" and "Close s0 \<notin> set es"
    and "own_flights s0 w = [(h, s0, at)]"
  shows "aborted (step MODEL_NAME connectionId parse (Close s0) w) = aborted w @ [h]"
    and "h \<in> fst ` set (fetches w)"
    and "frames_of s0 (run MODEL_NAME connectionId parse es'
                        (step MODEL_NAME connectionId parse (Close s0) w)) = frames_of s0 w"
proof -
  note inv = accepted_inv [OF assms(1,2,3,4)]
  have "activeConnections w (connectionId s0) \<noteq> None"
    by (rule accepted_registered [OF assms(1,2,5)])
  then obtain c where c: "activeConnections w (connectionId s0) = Some c" by auto
  note cl = close_in_flight [where cid = connectionId and ?s0.0 = s0, OF inv assms(6) c]
  show "aborted (step MODEL_NAME connectionId parse (Close s0) w) = aborted w @ [h]"
    by (rule cl(4))
  show "h \<in> fst ` set (fetches w)" by (rule cl(3))
  have "\<not> socket_open (step MODEL_NAME connectionId parse (Close s0) w) s0"
       "frames_of s0 (step MODEL_NAME connectionId parse (Close s0) w) = frames_of s0 w"
    by (simp_all add: step_def frames_of_def)
  then show "frames_of s0 (run MODEL_NAME connectionId parse es'
                        (step MODEL_NAME connectionId parse (Close s0) w)) = frames_of s0 w"
    using silent_run by metis
qed

text \<open>
  Claim C6 on a concrete run.  The key of a connection is
  \<^verbatim>\<open>Date.now().toString()\<close>, so two sockets accepted within one millisecond get the
  same key, and the second \<^verbatim>\<open>activeConnections.set\<close> replaces the entry of the first.
  Here socket 0 is accepted and receives a prompt, whose upstream call (controller 0)
  is pending when socket 1 is accepted under the same key.  When socket 0 then
  closes, its \<^verbatim>\<open>close\<close> handler finds the entry of socket 1, whose
  \<^verbatim>\<open>abortController\<close> is \<^verbatim>\<open>null\<close>: \<^verbatim>\<open>abort()\<close> is not called on any controller and
  the run of the handler stays suspended on the upstream call.  With a key of its
  own for every socket the same events abort controller 0.
\<close>

theorem close_without_abort:
  \<open>flights (run ''codellama'' same_key sample_parse
       [Connection 0, Message 0 ''hi'', Connection 1] world_init) = [(0, 0, AwaitFetch)] \<and>
   map fst (fetches (run ''codellama'' same_key sample_parse
       [Connection 0, Message 0 ''hi'', Connection 1] world_init)) = [0] \<and>
   activeConnections (run ''codellama'' same_key sample_parse
       [Connection 0, Message 0 ''hi'', Connection 1] world_init) (same_key 0)
     = Some \<lparr>socket = 1, isProcessing = False, abortController = None\<rparr> \<and>
   aborted (run ''codellama'' same_key sample_parse
       [Connection 0, Message 0 ''hi'', Connection 1, Close 0] world_init) = [] \<and>
   flights (run ''codellama'' same_key sample_parse
       [Connection 0, Message 0 ''hi'', Connection 1, Close 0] world_init) = [(0, 0, AwaitFetch)] \<and>
   aborted (run ''codellama'' own_keys sample_parse
       [Connection 0, Message 0 ''hi'', Connection 1, Close 0] world_init) = [0]\<close>
  by code_simp

section \<open>One generation at a time\<close>

text \<open>
  Claim C3, as the code has it.  Let socket \<open>s0\<close> share its key with no other
  socket, and let \<open>w\<close> be any state the server reaches after accepting it (which
  it does once), whatever the other sockets do.  At most one run of its message handler is suspended; its
  entry stays registered until its socket closes, and a registered entry is busy
  exactly while a run is suspended.  A message that finds the entry busy changes
  nothing: no upstream call is started.  A message that finds it idle marks it busy,
  stores a controller never handed out before, and starts one upstream call with
  that controller.  A suspended run ends when its await rejects and when the body
  reports its end; and whichever event ends the run, the \<^verbatim>\<open>finally\<close> block has
  then cleared both fields of the entry if it is still registered, so that the next
  message starts an upstream call at once.  If the socket closes during the run,
  the \<^verbatim>\<open>close\<close> handler takes the entry out of the registry as it is, busy and
  holding the controller, and the \<^verbatim>\<open>finally\<close> block of the run, which ends by the
  rejection of its await, clears nothing.
\<close>

theorem single_flight_guard:
  assumes "\<forall>s. connectionId s = connectionId s0 \<longrightarrow> s = s0"
    and "w = run MODEL_NAME connectionId parse (pre @ Connection s0 # es) world_init"
    and "Connection s0 \<notin> set pre" and "Connection s0 \<notin> set es"
  shows
   "length (own_flights s0 w) \<le> 1 \<and>
    (Close s0 \<notin> set es \<longrightarrow> activeConnections w (connectionId s0) \<noteq> None) \<and>
    (\<forall>c. activeConnections w (connectionId s0) = Some c \<longrightarrow>
        (isProcessing c \<longleftrightarrow> own_flights s0 w \<noteq> [])) \<and>
    (\<forall>c. activeConnections w (connectionId s0) = Some c \<and> isProcessing c \<longrightarrow>
        step MODEL_NAME connectionId parse (Message s0 userInput) w = w) \<and>
    (\<forall>c. activeConnections w (connectionId s0) = Some c \<and> \<not> isProcessing c \<longrightarrow>
        activeConnections (step MODEL_NAME connectionId parse (Message s0 userInput) w)
            (connectionId s0)
          = Some (c\<lparr>isProcessing := True, abortController := Some (next_handle w)\<rparr>) \<and>
        next_handle w \<notin> fst ` set (fetches w) \<and>
        fetches (step MODEL_NAME connectionId parse (Message s0 userInput) w) = fetches w @
          [(next_handle w,
            \<lparr>g_model = MODEL_NAME, g_prompt = userInput, g_system = Some STRATIFY_SYSTEM\<rparr>)] \<and>
        own_flights s0 (step MODEL_NAME connectionId parse (Message s0 userInput) w)
          = [(next_handle w, s0, AwaitFetch)]) \<and>
    (own_flights s0 w = [(h, s0, at)] \<longrightarrow>
        own_flights s0 (step MODEL_NAME connectionId parse (Throws h err) w) = [] \<and>
        (at = AwaitRead \<longrightarrow>
           own_flights s0 (step MODEL_NAME connectionId parse (ReadDone h) w) = [])) \<and>
    (own_flights s0 w \<noteq> [] \<and> own_flights s0 (step MODEL_NAME connectionId parse e w) = [] \<longrightarrow>
        (\<forall>c. activeConnections (step MODEL_NAME connectionId parse e w) (connectionId s0) = Some c
           \<longrightarrow>
           \<not> isProcessing c \<and> abortController c = None \<and>
           fetches (step MODEL_NAME connectionId parse (Message s0 userInput)
                      (step MODEL_NAME connectionId parse e w))
             = fetches (step MODEL_NAME connectionId parse e w) @
               [(next_handle (step MODEL_NAME connectionId parse e w),
                 \<lparr>g_model = MODEL_NAME, g_prompt = userInput,
                  g_system = Some STRATIFY_SYSTEM\<rparr>)])) \<and>
    (\<forall>c. own_flights s0 w = [(h, s0, at)] \<and> activeConnections w (connectionId s0) = Some c \<longrightarrow>
        isProcessing c \<and> abortController c = Some h \<and>
        activeConnections (step MODEL_NAME connectionId parse (Close s0) w) (connectionId s0)
          = None \<and>
        removed (step MODEL_NAME connectionId parse (Close s0) w) = removed w @ [c] \<and>
        own_flights s0 (step MODEL_NAME connectionId parse (Throws h err)
                          (step MODEL_NAME connectionId parse (Close s0) w)) = [] \<and>
        activeConnections (step MODEL_NAME connectionId parse (Throws h err)
                             (step MODEL_NAME connectionId parse (Close s0) w)) (connectionId s0)
          = None \<and>
        removed (step MODEL_NAME connectionId parse (Throws h err)
                   (step MODEL_NAME connectionId parse (Close s0) w)) = removed w @ [c])"
proof -
  let ?k = "connectionId s0"
  let ?w' = "step MODEL_NAME connectionId parse e w"
  note hi = accepted_inv [OF assms]
  note h = hi(1) and inv = hi(2)
  have 1: "length (own_flights s0 w) \<le> 1"
    using inv by (simp add: flight_inv_def)
  have 2: "Close s0 \<notin> set es \<longrightarrow> activeConnections w ?k \<noteq> None"
    using accepted_registered [OF assms(1,2)] by blast
  have 3: "\<forall>c. activeConnections w ?k = Some c \<longrightarrow> (isProcessing c \<longleftrightarrow> own_flights s0 w \<noteq> [])"
    using busy_iff_flight [OF inv] by blast
  have 4: "\<forall>c. activeConnections w ?k = Some c \<and> isProcessing c \<longrightarrow>
        step MODEL_NAME connectionId parse (Message s0 userInput) w = w"
    by (simp add: step_def on_message_busy)
  have 5: "\<forall>c. activeConnections w ?k = Some c \<and> \<not> isProcessing c \<longrightarrow>
        activeConnections (step MODEL_NAME connectionId parse (Message s0 userInput) w) ?k
          = Some (c\<lparr>isProcessing := True, abortController := Some (next_handle w)\<rparr>) \<and>
        next_handle w \<notin> fst ` set (fetches w) \<and>
        fetches (step MODEL_NAME connectionId parse (Message s0 userInput) w) = fetches w @
          [(next_handle w,
            \<lparr>g_model = MODEL_NAME, g_prompt = userInput, g_system = Some STRATIFY_SYSTEM\<rparr>)] \<and>
        own_flights s0 (step MODEL_NAME connectionId parse (Message s0 userInput) w)
          = [(next_handle w, s0, AwaitFetch)]"
    using enter_flight [where cid = connectionId and ?s0.0 = s0, OF h inv] by blast
  have 6: "own_flights s0 w = [(h, s0, at)] \<longrightarrow>
        own_flights s0 (step MODEL_NAME connectionId parse (Throws h err) w) = [] \<and>
        (at = AwaitRead \<longrightarrow>
           own_flights s0 (step MODEL_NAME connectionId parse (ReadDone h) w) = [])"
    using leave_flight [OF h inv] by blast
  have 7: "own_flights s0 w \<noteq> [] \<and> own_flights s0 ?w' = [] \<longrightarrow>
        (\<forall>c. activeConnections ?w' ?k = Some c \<longrightarrow>
           \<not> isProcessing c \<and> abortController c = None \<and>
           fetches (step MODEL_NAME connectionId parse (Message s0 userInput) ?w')
             = fetches ?w' @
               [(next_handle ?w',
                 \<lparr>g_model = MODEL_NAME, g_prompt = userInput,
                  g_system = Some STRATIFY_SYSTEM\<rparr>)])"
  proof (intro impI allI)
    fix c
    assume a: "own_flights s0 w \<noteq> [] \<and> own_flights s0 ?w' = []"
      and c: "activeConnections ?w' ?k = Some c"
    have ne: "e \<noteq> Connection s0"
    proof
      assume "e = Connection s0"
      then have "own_flights s0 ?w' = own_flights s0 w"
        by (simp add: step_def own_flights_def)
      with a show False by simp
    qed
    have h': "handles_inv ?w'" by (rule handles_step [OF h])
    have inv': "flight_inv ?k s0 ?w'" by (rule inv_step [where cid = connectionId and ?s0.0 = s0, OF h inv assms(1) ne])
    from inv' a c have idle: "\<not> isProcessing c" and nc: "abortController c = None"
      unfolding flight_inv_def by auto
    show "\<not> isProcessing c \<and> abortController c = None \<and>
           fetches (step MODEL_NAME connectionId parse (Message s0 userInput) ?w')
             = fetches ?w' @
               [(next_handle ?w',
                 \<lparr>g_model = MODEL_NAME, g_prompt = userInput,
                  g_system = Some STRATIFY_SYSTEM\<rparr>)]"
      using idle nc enter_flight(3) [where cid = connectionId and ?s0.0 = s0, OF h' inv' c idle] by blast
  qed
  have 8: "\<forall>c. own_flights s0 w = [(h, s0, at)] \<and> activeConnections w ?k = Some c \<longrightarrow>
        isProcessing c \<and> abortController c = Some h \<and>
        activeConnections (step MODEL_NAME connectionId parse (Close s0) w) ?k = None \<and>
        removed (step MODEL_NAME connectionId parse (Close s0) w) = removed w @ [c] \<and>
        own_flights s0 (step MODEL_NAME connectionId parse (Throws h err)
                          (step MODEL_NAME connectionId parse (Close s0) w)) = [] \<and>
        activeConnections (step MODEL_NAME connectionId parse (Throws h err)
                             (step MODEL_NAME connectionId parse (Close s0) w)) ?k = None \<and>
        removed (step MODEL_NAME connectionId parse (Throws h err)
                   (step MODEL_NAME connectionId parse (Close s0) w)) = removed w @ [c]"
  proof (intro allI impI, elim conjE)
    fix c
    assume o: "own_flights s0 w = [(h, s0, at)]" and c: "activeConnections w ?k = Some c"
    note cl = close_in_flight [where cid = connectionId and ?s0.0 = s0, OF h inv o c]
    show "isProcessing c \<and> abortController c = Some h \<and>
        activeConnections (step MODEL_NAME connectionId parse (Close s0) w) ?k = None \<and>
        removed (step MODEL_NAME connectionId parse (Close s0) w) = removed w @ [c] \<and>
        own_flights s0 (step MODEL_NAME connectionId parse (Throws h err)
                          (step MODEL_NAME connectionId parse (Close s0) w)) = [] \<and>
        activeConnections (step MODEL_NAME connectionId parse (Throws h err)
                             (step MODEL_NAME connectionId parse (Close s0) w)) ?k = None \<and>
        removed (step MODEL_NAME connectionId parse (Throws h err)
                   (step MODEL_NAME connectionId parse (Close s0) w)) = removed w @ [c]"
      by (intro conjI cl)
  qed
  show ?thesis
    using 1 2 3 4 5 6 7 8 by blast
qed


theorem single_flight_guard_witness:
  \<open>length (own_flights 0 sample_flight) \<le> 1 \<and>
   activeConnections sample_flight (own_keys 0)
     = Some \<lparr>socket = 0, isProcessing = True, abortController = Some 0\<rparr> \<and>
   own_flights 0 sample_flight = [(0, 0, AwaitRead)] \<and>
   step ''codellama'' own_keys sample_parse (Message 0 ''again'') sample_flight = sample_flight \<and>
   own_flights 0 (step ''codellama'' own_keys sample_parse (ReadDone 0) sample_flight) = [] \<and>
   own_flights 0 (step ''codellama'' own_keys sample_parse
      (Throws 0 \<lparr>err_name = ''TypeError'', err_message = ''terminated''\<rparr>) sample_flight) = [] \<and>
   activeConnections (step ''codellama'' own_keys sample_parse (ReadDone 0) sample_flight)
       (own_keys 0)
     = Some \<lparr>socket = 0, isProcessing = False, abortController = None\<rparr> \<and>
   fetches (step ''codellama'' own_keys sample_parse (Message 0 ''again'')
              (step ''codellama'' own_keys sample_parse (ReadDone 0) sample_flight))
     = fetches (step ''codellama'' own_keys sample_parse (ReadDone 0) sample_flight) @
       [(next_handle (step ''codellama'' own_keys sample_parse (ReadDone 0) sample_flight),
         \<lparr>g_model = ''codellama'', g_prompt = ''again'', g_system = Some STRATIFY_SYSTEM\<rparr>)] \<and>
   removed (step ''codellama'' own_keys sample_parse
              (Throws 0 \<lparr>err_name = ''TypeError'', err_message = ''terminated''\<rparr>)
              (step ''codellama'' own_keys sample_parse (Close 0) sample_flight))
     = removed sample_flight @ [\<lparr>socket = 0, isProcessing = True, abortController = Some 0\<rparr>] \<and>
   activeConnections (run ''codellama'' own_keys sample_parse ([] @ Connection 0 # []) world_init)
       (own_keys 0)
     = Some \<lparr>socket = 0, isProcessing = False, abortController = None\<rparr> \<and>
   own_flights 0 (step ''codellama'' own_keys sample_parse (Message 0 ''hi'')
       (run ''codellama'' own_keys sample_parse ([] @ Connection 0 # []) world_init))
     = [(next_handle (run ''codellama'' own_keys sample_parse ([] @ Connection 0 # []) world_init),
         0, AwaitFetch)]\<close>
proof -
  have u: \<open>\<forall>s. own_keys s = own_keys 0 \<longrightarrow> s = 0\<close>
    by simp
  have h1: \<open>sample_flight = run ''codellama'' own_keys sample_parse
       ([] @ Connection 0 #
        [Message 0 ''hi'',
         FetchResolved 0 \<lparr>ok = True, status = 200, statusText = ''OK'',
                           body = Some \<lparr>chunks = [], failure = None\<rparr>\<rparr>,
         ReadValue 0 (''{"response":"x"}'' @ [newline])])
       world_init\<close>
    by (simp only: sample_flight_def)
  have h0: \<open>run ''codellama'' own_keys sample_parse ([] @ Connection 0 # []) world_init
      = run ''codellama'' own_keys sample_parse ([] @ Connection 0 # []) world_init\<close>
    by (rule refl)
  have np: \<open>Connection 0 \<notin> set []\<close>
    by simp
  have ne: \<open>Connection 0 \<notin> set [Message 0 ''hi'',
         FetchResolved 0 \<lparr>ok = True, status = 200, statusText = ''OK'',
                           body = Some \<lparr>chunks = [], failure = None\<rparr>\<rparr>,
         ReadValue 0 (''{"response":"x"}'' @ [newline])]\<close>
    by simp
  have a1: \<open>activeConnections sample_flight (own_keys 0)
     = Some \<lparr>socket = 0, isProcessing = True, abortController = Some 0\<rparr>\<close>
    by code_simp
  have a2: \<open>isProcessing \<lparr>socket = 0, isProcessing = True, abortController = Some 0\<rparr>\<close>
    by simp
  have f1: \<open>own_flights 0 sample_flight = [(0, 0, AwaitRead)]\<close>
    by code_simp
  have a3: \<open>activeConnections (step ''codellama'' own_keys sample_parse (ReadDone 0) sample_flight)
       (own_keys 0)
     = Some \<lparr>socket = 0, isProcessing = False, abortController = None\<rparr>\<close>
    by code_simp
  have a0: \<open>activeConnections
       (run ''codellama'' own_keys sample_parse ([] @ Connection 0 # []) world_init) (own_keys 0)
     = Some \<lparr>socket = 0, isProcessing = False, abortController = None\<rparr>\<close>
    by code_simp
  have a0': \<open>\<not> isProcessing \<lparr>socket = 0, isProcessing = False, abortController = None\<rparr>\<close>
    by simp
  note T1 = single_flight_guard [OF u h1 np ne, where userInput = \<open>''again''\<close> and h = 0
      and at = AwaitRead and e = \<open>ReadDone 0\<close>
      and err = \<open>\<lparr>err_name = ''TypeError'', err_message = ''terminated''\<rparr>\<close>]
  note T0 = single_flight_guard [OF u h0 np np, where userInput = \<open>''hi''\<close>]
  have r1: \<open>length (own_flights 0 sample_flight) \<le> 1\<close>
    using T1 by blast
  have r2: \<open>step ''codellama'' own_keys sample_parse (Message 0 ''again'') sample_flight
      = sample_flight\<close>
    using T1 a1 a2 by blast
  have r3: \<open>own_flights 0 (step ''codellama'' own_keys sample_parse (ReadDone 0) sample_flight) = []\<close>
    using T1 f1 by blast
  have r4: \<open>own_flights 0 (step ''codellama'' own_keys sample_parse
      (Throws 0 \<lparr>err_name = ''TypeError'', err_message = ''terminated''\<rparr>) sample_flight) = []\<close>
    using T1 f1 by blast
  have ne1: \<open>own_flights 0 sample_flight \<noteq> []\<close>
    using f1 by simp
  have r5: \<open>fetches (step ''codellama'' own_keys sample_parse (Message 0 ''again'')
              (step ''codellama'' own_keys sample_parse (ReadDone 0) sample_flight))
     = fetches (step ''codellama'' own_keys sample_parse (ReadDone 0) sample_flight) @
       [(next_handle (step ''codellama'' own_keys sample_parse (ReadDone 0) sample_flight),
         \<lparr>g_model = ''codellama'', g_prompt = ''again'', g_system = Some STRATIFY_SYSTEM\<rparr>)]\<close>
    using T1 ne1 r3 a3 by blast
  have r6: \<open>removed (step ''codellama'' own_keys sample_parse
              (Throws 0 \<lparr>err_name = ''TypeError'', err_message = ''terminated''\<rparr>)
              (step ''codellama'' own_keys sample_parse (Close 0) sample_flight))
     = removed sample_flight @ [\<lparr>socket = 0, isProcessing = True, abortController = Some 0\<rparr>]\<close>
    using T1 f1 a1 by blast
  have r7: \<open>own_flights 0 (step ''codellama'' own_keys sample_parse (Message 0 ''hi'')
       (run ''codellama'' own_keys sample_parse ([] @ Connection 0 # []) world_init))
     = [(next_handle (run ''codellama'' own_keys sample_parse ([] @ Connection 0 # []) world_init),
         0, AwaitFetch)]\<close>
    using T0 a0 a0' by blast
  show ?thesis
    using r1 a1 f1 r2 r3 r4 a3 r5 r6 a0 r7 by blast
qed

text \<open>
  Claim C3 as stated fails in two ways.  A run that ends by cancellation, the socket
  having closed, clears neither field: the entry is out of the registry, busy and
  holding controller 0, when the \<^verbatim>\<open>finally\<close> block runs.  And two sockets that were
  given the same key share one entry: when socket 1 is accepted while a prompt of
  socket 0 is in flight, the entry is replaced by an idle one and the next prompt
  of socket 0 starts a second upstream call beside the first; and when socket 1
  closes, the entry is deleted, after which a prompt of socket 0 throws on
  \<^verbatim>\<open>connection.isProcessing\<close> and starts no call.
\<close>

theorem single_flight_guard_counterexample:
  \<open>own_flights 0 sample_flight = [(0, 0, AwaitRead)] \<and>
   activeConnections sample_flight (own_keys 0)
     = Some \<lparr>socket = 0, isProcessing = True, abortController = Some 0\<rparr> \<and>
   aborted (run ''codellama'' own_keys sample_parse
       [Close 0,
        Throws 0 \<lparr>err_name = ''AbortError'', err_message = ''This operation was aborted''\<rparr>]
       sample_flight) = [0] \<and>
   own_flights 0 (run ''codellama'' own_keys sample_parse
       [Close 0,
        Throws 0 \<lparr>err_name = ''AbortError'', err_message = ''This operation was aborted''\<rparr>]
       sample_flight) = [] \<and>
   activeConnections (run ''codellama'' own_keys sample_parse
       [Close 0,
        Throws 0 \<lparr>err_name = ''AbortError'', err_message = ''This operation was aborted''\<rparr>]
       sample_flight) (own_keys 0) = None \<and>
   removed (run ''codellama'' own_keys sample_parse
       [Close 0,
        Throws 0 \<lparr>err_name = ''AbortError'', err_message = ''This operation was aborted''\<rparr>]
       sample_flight)
     = [\<lparr>socket = 0, isProcessing = True, abortController = Some 0\<rparr>] \<and>
   own_flights 0 (run ''codellama'' same_key sample_parse
       [Connection 0, Message 0 ''a'', Connection 1, Message 0 ''b''] world_init)
     = [(0, 0, AwaitFetch), (1, 0, AwaitFetch)] \<and>
   map fst (fetches (run ''codellama'' same_key sample_parse
       [Connection 0, Message 0 ''a'', Connection 1, Message 0 ''b''] world_init)) = [0, 1] \<and>
   activeConnections (run ''codellama'' same_key sample_parse
       [Connection 0, Connection 1, Close 1] world_init) (same_key 0) = None \<and>
   fetches (run ''codellama'' same_key sample_parse
       [Connection 0, Connection 1, Close 1, Message 0 ''a''] world_init) = []\<close>
  by code_simp

end
